theory Spec2Isabelle
  imports Main "HOL-Library.Word"
begin

unbundle bit_operations_syntax

section \<open>CoAP client of the plant node (network/coap\_client.c)\<close>

text \<open>
  The embedding follows \<^verbatim>\<open>src/plantNodeDemo/main/src/network/coap_client.c\<close>.
  A C \<^verbatim>\<open>char\<close> is a \<^typ>\<open>char\<close>, a \<^verbatim>\<open>uint8_t\<close> an \<^typ>\<open>8 word\<close>, a
  \<^verbatim>\<open>uint16_t\<close> a \<^typ>\<open>16 word\<close>. A \<^verbatim>\<open>size_t\<close> is a \<^typ>\<open>nat\<close>, 32 bits
  wide on the target. The general builder takes its sizes from the caller, so each sum
  it forms is written with its reduction modulo \<open>2 ^ 32\<close> (\<open>size_t\<close> below). In the
  simplified encoder every sum is a position in the message plus the length of a string
  that lies in the same 32-bit address space as the buffer, and stays below \<open>2 ^ 32\<close>.
  A pointer that may be \<^verbatim>\<open>NULL\<close> is an \<open>option\<close>. Log output is not modelled.
\<close>

type_synonym u8 = "8 word"
type_synonym u16 = "16 word"

text \<open>The value a \<^verbatim>\<open>size_t\<close> holds after an addition.\<close>

definition size_t :: "nat \<Rightarrow> nat" where
  "size_t n = n mod 2 ^ 32"

subsection \<open>C strings and memory\<close>

definition NUL :: char where
  "NUL = CHR 0x00"

text \<open>The bytes of a C string: everything before the first terminator.\<close>

definition cstr :: "string \<Rightarrow> string" where
  "cstr s = takeWhile (\<lambda>c. c \<noteq> NUL) s"

definition strlen :: "string \<Rightarrow> nat" where
  "strlen s = length (cstr s)"

text \<open>\<^verbatim>\<open>strncpy(dst, src, n); dst[n] = '\0'\<close> leaves in \<open>dst\<close> the string:\<close>

definition strncpy :: "string \<Rightarrow> nat \<Rightarrow> string" where
  "strncpy src n = take n (cstr src)"

text \<open>\<^verbatim>\<open>memcpy(&buffer[pos], src, length src)\<close>, one store per byte.\<close>

fun memcpy :: "u8 list \<Rightarrow> nat \<Rightarrow> u8 list \<Rightarrow> u8 list" where
  "memcpy buf pos [] = buf"
| "memcpy buf pos (b # bs) = memcpy (buf[pos := b]) (Suc pos) bs"

definition bytes_of :: "string \<Rightarrow> u8 list" where
  "bytes_of s = map of_char s"

subsection \<open>The structures\<close>

record coap_uri_t =
  host :: string
  port :: int
  path :: string
  query :: string

record coap_message_t =
  buffer :: "u8 list"
  msg_length :: nat
  capacity :: nat
  last_option_number :: u16


subsection \<open>The general message builder\<close>

definition coap_message_init :: "u8 list \<Rightarrow> nat \<Rightarrow> coap_message_t" where
  "coap_message_init buf cap =
     \<lparr>buffer = buf, msg_length = 0, capacity = cap, last_option_number = 0\<rparr>"

definition coap_message_add_header :: "coap_message_t \<Rightarrow> u16 \<Rightarrow> bool \<times> coap_message_t" where
  "coap_message_add_header msg message_id =
     (if size_t (msg_length msg + 4) > capacity msg then (False, msg)
      else (True,
        msg\<lparr>buffer := (buffer msg)
               [0 := 0x40,
                1 := 0x02,
                2 := ucast (drop_bit 8 message_id AND 0xFF),
                3 := ucast (message_id AND 0xFF)],
            msg_length := 4\<rparr>))"

text \<open>
  \<^verbatim>\<open>coap_message_add_option(msg, option_number, value, value_len)\<close>. The value is
  \<open>None\<close> for a \<^verbatim>\<open>NULL\<close> pointer; \<^verbatim>\<open>memcpy\<close> reads \<open>value_len\<close> bytes of it
  (where the value holds fewer, which C leaves undefined, the model copies those it holds).
  The write cursor \<open>pos\<close> and the length field are advanced as the code advances them.
\<close>

definition coap_message_add_option ::
  "coap_message_t \<Rightarrow> u16 \<Rightarrow> u8 list option \<Rightarrow> nat \<Rightarrow> bool \<times> coap_message_t" where
  "coap_message_add_option msg option_number val value_len =
     (if val = None \<and> value_len > 0 then (False, msg)
      else
        let delta = option_number - last_option_number msg;
            space_needed = size_t (1 + value_len);
            space_needed = (if delta \<ge> 13 then size_t (space_needed + 1) else space_needed);
            space_needed = (if delta \<ge> 269 then size_t (space_needed + 1) else space_needed);
            space_needed = (if value_len \<ge> 13 then size_t (space_needed + 1) else space_needed);
            space_needed = (if value_len \<ge> 269 then size_t (space_needed + 1) else space_needed)
        in if size_t (msg_length msg + space_needed) > capacity msg then (False, msg)
           else
             let pos = msg_length msg;
                 delta_nibble = (if delta < 13 then (ucast delta :: u8)
                                 else if delta < 269 then 13 else 14);
                 length_nibble = (if value_len < 13 then (of_nat value_len :: u8)
                                  else if value_len < 269 then 13 else 14);
                 buf = (buffer msg)[pos := push_bit 4 delta_nibble OR length_nibble];
                 pos = pos + 1;
                 len = size_t (msg_length msg + 1);
                 (buf, pos, len) =
                   (if delta_nibble = 13
                    then (buf[pos := ucast ((delta - 13) AND 0xFF)], pos + 1, size_t (len + 1))
                    else if delta_nibble = 14
                    then (let extended_delta = delta - 269
                          in (buf[pos := ucast (drop_bit 8 extended_delta AND 0xFF),
                                  pos + 1 := ucast (extended_delta AND 0xFF)],
                              pos + 2, size_t (len + 2)))
                    else (buf, pos, len));
                 (buf, pos, len) =
                   (if length_nibble = 13
                    then (buf[pos := of_nat (value_len - 13) AND 0xFF], pos + 1, size_t (len + 1))
                    else if length_nibble = 14
                    then (let extended_len = (of_nat (value_len - 269) :: u16)
                          in (buf[pos := ucast (drop_bit 8 extended_len AND 0xFF),
                                  pos + 1 := ucast (extended_len AND 0xFF)],
                              pos + 2, size_t (len + 2)))
                    else (buf, pos, len));
                 (buf, len) =
                   (if value_len > 0
                    then (memcpy buf pos (take value_len (case val of None \<Rightarrow> [] | Some v \<Rightarrow> v)),
                          size_t (len + value_len))
                    else (buf, len))
             in (True, msg\<lparr>buffer := buf, msg_length := len,
                            last_option_number := option_number\<rparr>))"


text \<open>
  The size of an encoded option as the protocol defines it: one byte for the two nibbles,
  one extra byte for a delta or length from 13 to 268, two for one from 269 on, and the
  value.
\<close>

definition spec_ext_bytes :: "nat \<Rightarrow> nat" where
  "spec_ext_bytes x = (if x < 13 then 0 else if x < 269 then 1 else 2)"

definition spec_option_size :: "u16 \<Rightarrow> nat \<Rightarrow> nat" where
  "spec_option_size delta value_len = 1 + spec_ext_bytes (unat delta) + spec_ext_bytes value_len + value_len"

text \<open>
  The encoding of an option as the protocol defines it: the first byte holds the delta
  spec_nibble and the length spec_nibble; a delta or length from 13 to 268 puts 13 in its spec_nibble and
  one extra byte carrying the value minus 13; one from 269 on puts 14 in its spec_nibble and two
  extra bytes carrying the value minus 269, high byte first.
\<close>

definition spec_nibble :: "nat \<Rightarrow> nat" where
  "spec_nibble x = (if x < 13 then x else if x < 269 then 13 else 14)"

definition spec_ext_field :: "nat \<Rightarrow> u8 list" where
  "spec_ext_field x =
     (if x < 13 then []
      else if x < 269 then [of_nat (x - 13)]
      else [of_nat ((x - 269) div 256), of_nat ((x - 269) mod 256)])"

definition spec_option_header :: "nat \<Rightarrow> nat \<Rightarrow> u8 list" where
  "spec_option_header delta len =
     of_nat (16 * spec_nibble delta + spec_nibble len) # spec_ext_field delta @ spec_ext_field len"

text \<open>The bytes \<^verbatim>\<open>memcpy\<close> reads from the option value.\<close>

definition opt_value :: "u8 list option \<Rightarrow> nat \<Rightarrow> u8 list" where
  "opt_value val value_len = take value_len (case val of None \<Rightarrow> [] | Some v \<Rightarrow> v)"

text \<open>
  How a receiver reads the delta of the option that starts a byte sequence: the high
  spec_nibble of the first byte, or the extended field it announces.
\<close>

definition spec_decode_option_delta :: "u8 list \<Rightarrow> nat option" where
  "spec_decode_option_delta bs =
     (case bs of
        [] \<Rightarrow> None
      | b # rest \<Rightarrow>
          let nib = unat b div 16
          in if nib < 13 then Some nib
             else if nib = 13
             then (case rest of [] \<Rightarrow> None | e # _ \<Rightarrow> Some (unat e + 13))
             else if nib = 14
             then (case rest of
                     e1 # e0 # _ \<Rightarrow> Some (256 * unat e1 + unat e0 + 269)
                   | _ \<Rightarrow> None)
             else None)"


subsection \<open>The simplified encoder\<close>

text \<open>
  \<^verbatim>\<open>strtok\<close> keeps the position of the next call in a static variable; here the position
  is an argument and a result. \<open>strtok s delim\<close> skips the delimiters at the front of
  \<open>s\<close>; when nothing is left it returns \<^verbatim>\<open>NULL\<close>, otherwise the token up to the next
  delimiter (which it overwrites with the terminator) and the position after it.
\<close>

definition strtok :: "string \<Rightarrow> string \<Rightarrow> string option \<times> string" where
  "strtok s delim =
     (let s1 = dropWhile (\<lambda>c. c \<in> set delim) s
      in if s1 = [] then (None, [])
         else (Some (takeWhile (\<lambda>c. c \<notin> set delim) s1),
               drop 1 (dropWhile (\<lambda>c. c \<notin> set delim) s1)))"

lemma strtok_shorter:
  "length (snd (strtok s delim)) + (case fst (strtok s delim) of None \<Rightarrow> 0 | Some t \<Rightarrow> 1)
     \<le> length s"
proof -
  define s1 where "s1 = dropWhile (\<lambda>c. c \<in> set delim) s"
  define r where "r = dropWhile (\<lambda>c. c \<notin> set delim) s1"
  have a: "length s1 \<le> length s" unfolding s1_def by (rule length_dropWhile_le)
  have b: "length r \<le> length s1" unfolding r_def by (rule length_dropWhile_le)
  have eq: "strtok s delim =
     (if s1 = [] then (None, []) else (Some (takeWhile (\<lambda>c. c \<notin> set delim) s1), drop 1 r))"
    unfolding strtok_def s1_def r_def Let_def ..
  show ?thesis
  proof (cases "s1 = []")
    case True
    then show ?thesis unfolding eq by simp
  next
    case False
    then have c: "0 < length s1" by simp
    have "length (drop 1 r) + 1 \<le> length s"
      using a b c unfolding length_drop by arith
    with False show ?thesis unfolding eq by simp
  qed
qed

text \<open>
  The loop \<^verbatim>\<open>while (segment != NULL && strlen(segment) > 0)\<close> of
  \<^verbatim>\<open>build_simple_coap_message\<close>, on the buffer, the write position, the flag
  \<open>first_segment\<close>, the current token and the saved \<^verbatim>\<open>strtok\<close> position. The result is
  the buffer as written and the position reached, or \<open>None\<close> where the code returns
  \<^verbatim>\<open>false\<close>.
\<close>

function uri_path_loop ::
  "u8 list \<Rightarrow> nat \<Rightarrow> nat \<Rightarrow> bool \<Rightarrow> string option \<Rightarrow> string \<Rightarrow> u8 list \<times> nat option" where
  "uri_path_loop buf buffer_size pos first_segment None saveptr = (buf, Some pos)"
| "uri_path_loop buf buffer_size pos first_segment (Some segment) saveptr =
     (if \<not> strlen segment > 0 then (buf, Some pos)
      else if strlen segment > 12 then (buf, None)
      else if pos + 1 + strlen segment > buffer_size then (buf, None)
      else uri_path_loop
             (memcpy (buf[pos := (if first_segment then 0xB0 else 0x00) OR of_nat (strlen segment)])
                     (pos + 1) (bytes_of (take (strlen segment) segment)))
             buffer_size (pos + 1 + strlen segment) False
             (fst (strtok saveptr ''/'')) (snd (strtok saveptr ''/'')))"
  by pat_completeness auto
termination
proof (relation "measure (\<lambda>(buf, buffer_size, pos, first_segment, segment, saveptr).
         length saveptr + (case segment of None \<Rightarrow> 0 | Some t \<Rightarrow> 1))")
  show "wf (measure (\<lambda>(buf :: u8 list, buffer_size :: nat, pos :: nat, first_segment :: bool,
         segment :: string option, saveptr :: string).
         length saveptr + (case segment of None \<Rightarrow> 0 | Some t \<Rightarrow> 1)))"
    by simp
next
  fix buf :: "u8 list" and buffer_size pos :: nat and first_segment :: bool
    and segment saveptr :: string
  show "((memcpy (buf[pos := (if first_segment then 0xB0 else 0x00) OR of_nat (strlen segment)])
            (pos + 1) (bytes_of (take (strlen segment) segment)),
          buffer_size, pos + 1 + strlen segment, False,
          fst (strtok saveptr ''/''), snd (strtok saveptr ''/'')),
         (buf, buffer_size, pos, first_segment, Some segment, saveptr))
        \<in> measure (\<lambda>(buf, buffer_size, pos, first_segment, segment, saveptr).
             length saveptr + (case segment of None \<Rightarrow> 0 | Some t \<Rightarrow> 1))"
    using strtok_shorter [of saveptr "''/''"] by (simp add: case_prod_beta)
qed

text \<open>
  \<^verbatim>\<open>build_simple_coap_message(uri, payload, buffer, buffer_size, &message_len)\<close>.
  The result is the buffer as the call leaves it and \<open>Some message_len\<close> when the call
  returns \<^verbatim>\<open>true\<close>, \<open>None\<close> when it returns \<^verbatim>\<open>false\<close>.
\<close>

definition build_simple_coap_message ::
  "coap_uri_t \<Rightarrow> string option \<Rightarrow> u8 list \<Rightarrow> nat \<Rightarrow> u8 list \<times> nat option" where
  "build_simple_coap_message uri payload buf buffer_size =
     (let pos = 0
      in if pos + 4 > buffer_size then (buf, None)
         else
           let buf = buf[pos := 0x40, pos + 1 := 0x02, pos + 2 := 0x12, pos + 3 := 0x34];
               pos = pos + 4;
               (buf, after_path) =
                 (if strlen (path uri) > 0
                  then let path_copy = strncpy (path uri) 63
                       in uri_path_loop buf buffer_size pos True
                            (fst (strtok path_copy ''/'')) (snd (strtok path_copy ''/''))
                  else (buf, Some pos))
           in case after_path of
                None \<Rightarrow> (buf, None)
              | Some pos \<Rightarrow>
                  if pos + 2 > buffer_size then (buf, None)
                  else
                    let buf = buf[pos := 0x11, pos + 1 := 50];
                        pos = pos + 2
                    in if payload \<noteq> None \<and> strlen (the payload) > 0
                       then
                         let payload_len = strlen (the payload)
                         in if pos + 1 + payload_len > buffer_size then (buf, None)
                            else
                              let buf = buf[pos := 0xFF];
                                  pos = pos + 1;
                                  buf = memcpy buf pos (bytes_of (take payload_len (the payload)));
                                  pos = pos + payload_len
                              in (buf, Some pos)
                       else (buf, Some pos))"

text \<open>
  The tokens the successive \<^verbatim>\<open>strtok\<close> calls of the loop return: the segments of a
  path.
\<close>

function strtok_all :: "string \<Rightarrow> string \<Rightarrow> string list" where
  "strtok_all s delim =
     (case fst (strtok s delim) of
        None \<Rightarrow> []
      | Some t \<Rightarrow> t # strtok_all (snd (strtok s delim)) delim)"
  by pat_completeness auto
termination
proof (relation "measure (\<lambda>(s, delim). length s)")
  show "wf (measure (\<lambda>(s :: string, delim :: string). length s))" by simp
next
  fix s delim :: string and t :: string
  assume "fst (strtok s delim) = Some t"
  then show "((snd (strtok s delim), delim), (s, delim)) \<in> measure (\<lambda>(s, delim). length s)"
    using strtok_shorter [of s delim] by simp
qed

declare strtok_all.simps [simp del]

text \<open>
  The message the specification describes, for the path segments \<open>segs\<close> and the
  payload \<open>p\<close>: the header, one Uri-Path option (number 11) per segment, the
  Content-Format option (number 12) with the one-byte JSON code, the marker and the payload.
  Each option carries the difference between its number and the number of the option
  before it (0 before the first).
\<close>

definition simple_header :: "u8 list" where
  "simple_header = [0x40, 0x02, 0x12, 0x34]"

fun spec_encode_options :: "nat \<Rightarrow> (nat \<times> u8 list) list \<Rightarrow> u8 list" where
  "spec_encode_options prev [] = []"
| "spec_encode_options prev ((num, v) # opts) =
     spec_option_header (num - prev) (length v) @ v @ spec_encode_options num opts"

definition spec_message_options :: "string list \<Rightarrow> (nat \<times> u8 list) list" where
  "spec_message_options segs = map (\<lambda>s. (11, bytes_of s)) segs @ [(12, [50])]"

definition spec_expected_message :: "string list \<Rightarrow> string \<Rightarrow> u8 list" where
  "spec_expected_message segs p =
     simple_header @ spec_encode_options 0 (spec_message_options segs) @ [0xFF] @ bytes_of p"

text \<open>
  The bytes the simplified encoder writes, by tokens and payload: it always writes \<open>0x11\<close>
  before the content format.
\<close>

definition uri_path_opts :: "string list \<Rightarrow> (nat \<times> u8 list) list" where
  "uri_path_opts toks = map (\<lambda>s. (11, bytes_of s)) toks"

definition payload_bytes :: "string option \<Rightarrow> u8 list" where
  "payload_bytes payload =
     (case payload of None \<Rightarrow> []
      | Some p \<Rightarrow> if strlen p = 0 then [] else 0xFF # bytes_of (cstr p))"

definition as_built :: "string list \<Rightarrow> string option \<Rightarrow> u8 list" where
  "as_built toks payload =
     simple_header @ spec_encode_options 0 (uri_path_opts toks) @ [0x11, 50] @ payload_bytes payload"

text \<open>A path written from its segments.\<close>

fun join_path :: "string list \<Rightarrow> string" where
  "join_path [] = []"
| "join_path [s] = s"
| "join_path (s # t # ss) = s @ CHR ''/'' # join_path (t # ss)"

text \<open>A segment the simplified encoder accepts: not empty, at most 12 bytes, no separator
  and no terminator inside.\<close>

definition short_segment :: "string \<Rightarrow> bool" where
  "short_segment s \<longleftrightarrow> s \<noteq> [] \<and> length s \<le> 12 \<and> CHR ''/'' \<notin> set s \<and> NUL \<notin> set s"

subsection \<open>URI parsing\<close>

text \<open>
  The directives of the two \<^verbatim>\<open>sscanf\<close> formats, each on the input still to be read:
  the result is \<open>None\<close> when the directive fails, otherwise what it converts and the input
  left. A literal must be present; \<^verbatim>\<open>%63[^...]\<close> reads up to 63 characters outside the
  set and at least one; \<^verbatim>\<open>%d\<close> skips white space, then reads an optional sign and at
  least one digit; \<^verbatim>\<open>%127s\<close> skips white space, then reads up to 127 characters that
  are not white space and at least one.
\<close>

definition isspace :: "char \<Rightarrow> bool" where
  "isspace c \<longleftrightarrow> c \<in> set [CHR '' '', CHR 0x09, CHR 0x0A, CHR 0x0B, CHR 0x0C, CHR 0x0D]"

definition isdigit :: "char \<Rightarrow> bool" where
  "isdigit c \<longleftrightarrow> c \<in> set ''0123456789''"

definition digit_val :: "char \<Rightarrow> int" where
  "digit_val c = of_char c - 48"

definition decimal :: "string \<Rightarrow> int" where
  "decimal ds = foldl (\<lambda>a c. 10 * a + digit_val c) 0 ds"

text \<open>
  A numeral beyond the range of \<^verbatim>\<open>int\<close> is undefined for \<^verbatim>\<open>%d\<close> in C; the C library
  of the platform converts with \<^verbatim>\<open>strtol\<close>, which stops at the ends of the range.
\<close>

definition clamp_int :: "int \<Rightarrow> int" where
  "clamp_int v = max (- (2 ^ 31)) (min (2 ^ 31 - 1) v)"

definition scan_literal :: "string \<Rightarrow> string \<Rightarrow> string option" where
  "scan_literal lit inp =
     (if take (length lit) inp = lit then Some (drop (length lit) inp) else None)"

definition scan_set :: "(char \<Rightarrow> bool) \<Rightarrow> nat \<Rightarrow> string \<Rightarrow> (string \<times> string) option" where
  "scan_set ok width inp =
     (let tok = takeWhile ok (take width inp)
      in if tok = [] then None else Some (tok, drop (length tok) inp))"

definition scan_str :: "nat \<Rightarrow> string \<Rightarrow> (string \<times> string) option" where
  "scan_str width inp = scan_set (\<lambda>c. \<not> isspace c) width (dropWhile isspace inp)"

definition scan_int :: "string \<Rightarrow> (int \<times> string) option" where
  "scan_int inp =
     (let s = dropWhile isspace inp;
          negative = (s \<noteq> [] \<and> hd s = CHR ''-'');
          s1 = (if s \<noteq> [] \<and> (hd s = CHR ''-'' \<or> hd s = CHR ''+'') then tl s else s);
          ds = takeWhile isdigit s1
      in if ds = [] then None
         else Some (clamp_int (if negative then - decimal ds else decimal ds),
                    drop (length ds) s1))"

text \<open>
  \<^verbatim>\<open>sscanf(uri, "coap://%63[^:/]:%d/%127s", host, &port, path_and_query)\<close> on the
  variables as they are before the call: the number of conversions stored and the
  variables after it. Where C returns \<^verbatim>\<open>EOF\<close> (the input ends before the first
  conversion) the model returns 0; the caller only tests \<^verbatim>\<open>n < 2\<close>.
\<close>

definition sscanf_port_form ::
  "string \<Rightarrow> string \<times> int \<times> string \<Rightarrow> nat \<times> string \<times> int \<times> string" where
  "sscanf_port_form inp vars =
     (case vars of (h, p, pq) \<Rightarrow>
        (case scan_literal ''coap://'' inp of
           None \<Rightarrow> (0, h, p, pq)
         | Some r0 \<Rightarrow>
             (case scan_set (\<lambda>c. c \<notin> set '':/'') 63 r0 of
                None \<Rightarrow> (0, h, p, pq)
              | Some (h', r1) \<Rightarrow>
                  (case scan_literal '':'' r1 of
                     None \<Rightarrow> (1, h', p, pq)
                   | Some r2 \<Rightarrow>
                       (case scan_int r2 of
                          None \<Rightarrow> (1, h', p, pq)
                        | Some (p', r3) \<Rightarrow>
                            (case scan_literal ''/'' r3 of
                               None \<Rightarrow> (2, h', p', pq)
                             | Some r4 \<Rightarrow>
                                 (case scan_str 127 r4 of
                                    None \<Rightarrow> (2, h', p', pq)
                                  | Some (pq', r5) \<Rightarrow> (3, h', p', pq'))))))))"

text \<open>\<^verbatim>\<open>sscanf(uri, "coap://%63[^/]/%127s", host, path_and_query)\<close>.\<close>

definition sscanf_plain_form ::
  "string \<Rightarrow> string \<times> string \<Rightarrow> nat \<times> string \<times> string" where
  "sscanf_plain_form inp vars =
     (case vars of (h, pq) \<Rightarrow>
        (case scan_literal ''coap://'' inp of
           None \<Rightarrow> (0, h, pq)
         | Some r0 \<Rightarrow>
             (case scan_set (\<lambda>c. c \<notin> set ''/'') 63 r0 of
                None \<Rightarrow> (0, h, pq)
              | Some (h', r1) \<Rightarrow>
                  (case scan_literal ''/'' r1 of
                     None \<Rightarrow> (1, h', pq)
                   | Some r2 \<Rightarrow>
                       (case scan_str 127 r2 of
                          None \<Rightarrow> (1, h', pq)
                        | Some (pq', r3) \<Rightarrow> (2, h', pq'))))))"

text \<open>\<^verbatim>\<open>strchr(s, c)\<close>: the offset of the first \<open>c\<close> in \<open>s\<close>, or \<^verbatim>\<open>NULL\<close>.\<close>

definition strchr :: "string \<Rightarrow> char \<Rightarrow> nat option" where
  "strchr s c = (if c \<in> set s then Some (length (takeWhile (\<lambda>x. x \<noteq> c) s)) else None)"

text \<open>
  \<^verbatim>\<open>parse_coap_uri(uri, parsed)\<close>. \<open>ParseOk\<close> carries the structure when the call returns
  \<^verbatim>\<open>true\<close>, \<open>ParseFail\<close> stands for \<^verbatim>\<open>false\<close>. With a \<^verbatim>\<open>?\<close> after more than 63
  characters of path, \<^verbatim>\<open>strncpy(parsed->path, path_and_query, path_len)\<close> and the store
  to \<^verbatim>\<open>parsed->path[path_len]\<close> write beyond the 64 bytes of \<^verbatim>\<open>path\<close>, which C leaves
  undefined: \<open>ParseOverrun\<close>.
\<close>

datatype parse_result = ParseOk coap_uri_t | ParseFail | ParseOverrun

definition split_path_query :: "string \<Rightarrow> int \<Rightarrow> string \<Rightarrow> parse_result" where
  "split_path_query h p path_and_query =
     (case strchr path_and_query (CHR ''?'') of
        Some path_len \<Rightarrow>
          if path_len > 63 then ParseOverrun
          else ParseOk \<lparr>host = h, port = p,
                         path = take path_len path_and_query,
                         query = strncpy (drop (path_len + 1) path_and_query) 63\<rparr>
      | None \<Rightarrow>
          ParseOk \<lparr>host = h, port = p, path = strncpy path_and_query 63, query = []\<rparr>)"

definition parse_coap_uri :: "string option \<Rightarrow> parse_result" where
  "parse_coap_uri uri =
     (case uri of
        None \<Rightarrow> ParseFail
      | Some u \<Rightarrow>
          (case sscanf_port_form (cstr u) ([], 5683, []) of
             (n, h, p, path_and_query) \<Rightarrow>
               if n < 2
               then (case sscanf_plain_form (cstr u) (h, path_and_query) of
                       (n, h, path_and_query) \<Rightarrow>
                         if n < 2 then ParseFail
                         else split_path_query h 5683 path_and_query)
               else split_path_query h p path_and_query))"

text \<open>
  The endpoint strings of the specification, \<open>coap://h[:p]/seg1/.../segN[?q]\<close>, and
  what makes their parts well formed: a host of 1 to 63 bytes without \<open>:\<close> and
  \<open>/\<close>, a port written in decimal digits within the range of \<^verbatim>\<open>int\<close>, segments that
  are not empty and hold no \<open>/\<close>, \<open>?\<close> or white space, a query of at most 63 bytes
  without white space.
\<close>

definition host_text :: "string \<Rightarrow> bool" where
  "host_text h \<longleftrightarrow>
     h \<noteq> [] \<and> length h \<le> 63 \<and> list_all (\<lambda>c. c \<noteq> CHR '':'' \<and> c \<noteq> CHR ''/'' \<and> c \<noteq> NUL) h"

definition port_text :: "string \<Rightarrow> bool" where
  "port_text ds \<longleftrightarrow> ds \<noteq> [] \<and> list_all isdigit ds \<and> decimal ds \<le> 2147483647"

definition segment_text :: "string \<Rightarrow> bool" where
  "segment_text s \<longleftrightarrow>
     s \<noteq> [] \<and>
     list_all (\<lambda>c. c \<noteq> CHR ''/'' \<and> c \<noteq> CHR ''?'' \<and> \<not> isspace c \<and> c \<noteq> NUL) s"

definition query_text :: "string \<Rightarrow> bool" where
  "query_text q \<longleftrightarrow> length q \<le> 63 \<and> list_all (\<lambda>c. \<not> isspace c \<and> c \<noteq> NUL) q"

definition endpoint_string :: "string \<Rightarrow> string option \<Rightarrow> string list \<Rightarrow> string option \<Rightarrow> string" where
  "endpoint_string h p segs q =
     ''coap://'' @ h @ (case p of None \<Rightarrow> [] | Some ds \<Rightarrow> CHR '':'' # ds) @
     CHR ''/'' # join_path segs @ (case q of None \<Rightarrow> [] | Some t \<Rightarrow> CHR ''?'' # t)"

definition path_and_query_text :: "string list \<Rightarrow> string option \<Rightarrow> string" where
  "path_and_query_text segs q = join_path segs @ (case q of None \<Rightarrow> [] | Some t \<Rightarrow> CHR ''?'' # t)"

subsection \<open>Transport and dispatch\<close>

text \<open>
  The platform: what \<^verbatim>\<open>esp_wifi_sta_get_ap_info\<close> answers after a number of
  milliseconds of waiting, what \<^verbatim>\<open>socket\<close> returns, what \<^verbatim>\<open>inet_pton\<close> returns for a
  host string, what \<^verbatim>\<open>sendto\<close> returns for a datagram, and the contents of the 512 bytes of
  \<^verbatim>\<open>coap_buffer\<close> before it is written (indeterminate in C).
\<close>

record platform =
  ap_info_ok :: "nat \<Rightarrow> bool"
  socket_result :: int
  inet_pton_result :: "string \<Rightarrow> int"
  sendto_result :: "u8 list \<Rightarrow> int"
  coap_buffer :: "u8 list"

text \<open>What the task does to the platform, in order.\<close>

datatype event =
    WifiQuery nat bool
  | TaskDelay nat
  | ParseUri
  | BuildMessage
  | SocketCreate int
  | SendTo int u16 "u8 list"
  | SocketClose int
  | TaskDelete

text \<open>
  \<^verbatim>\<open>send_coap_udp(uri, message, message_len)\<close>: the value returned and the events.
  \<^verbatim>\<open>htons(uri->port)\<close> keeps the low 16 bits of the port.
\<close>

definition send_coap_udp ::
  "platform \<Rightarrow> coap_uri_t \<Rightarrow> u8 list \<Rightarrow> nat \<Rightarrow> bool \<times> event list" where
  "send_coap_udp pf uri message message_len =
     (let sock = socket_result pf
      in if sock < 0 then (False, [SocketCreate sock])
         else if inet_pton_result pf (host uri) \<le> 0
         then (False, [SocketCreate sock, SocketClose sock])
         else
           let sent = sendto_result pf (take message_len message);
               events = [SocketCreate sock,
                         SendTo sock (word_of_int (port uri)) (take message_len message),
                         SocketClose sock]
           in if sent < 0 then (False, events) else (True, events))"

text \<open>
  The loop of \<^verbatim>\<open>wait_for_wifi(timeout_ms)\<close> from a value of \<open>waited\<close> on. The calls
  use a timeout far from the largest \<^verbatim>\<open>int\<close>, so \<open>waited += 100\<close> does not overflow.
\<close>

function wait_for_wifi_from :: "platform \<Rightarrow> int \<Rightarrow> int \<Rightarrow> bool \<times> event list" where
  "wait_for_wifi_from pf timeout_ms waited =
     (if waited < timeout_ms
      then if ap_info_ok pf (nat waited) then (True, [WifiQuery (nat waited) True])
           else (case wait_for_wifi_from pf timeout_ms (waited + 100) of
                   (connected, later) \<Rightarrow>
                     (connected, WifiQuery (nat waited) False # TaskDelay 100 # later))
      else (False, []))"
  by pat_completeness auto
termination
  by (relation "measure (\<lambda>(pf, timeout_ms, waited). nat (timeout_ms - waited))") auto

declare wait_for_wifi_from.simps [simp del]

definition wait_for_wifi :: "platform \<Rightarrow> int \<Rightarrow> bool \<times> event list" where
  "wait_for_wifi pf timeout_ms = wait_for_wifi_from pf timeout_ms 0"

text \<open>
  The ways a send attempt ends, named as the specification names them. The code returns
  nothing; each is one of its exits: the log line \<^verbatim>\<open>"Invalid parameters"\<close>, a failed
  \<^verbatim>\<open>parse_coap_uri\<close>, a failed \<^verbatim>\<open>build_simple_coap_message\<close>, a failed
  \<^verbatim>\<open>send_coap_udp\<close>, \<^verbatim>\<open>"WiFi not connected, cannot send CoAP"\<close>, and the successful end.
\<close>

datatype send_outcome =
    Sent
  | InvalidParameters
  | ParseError
  | EncodeError
  | TransmitError
  | NetworkUnavailable
  | UndefinedBehaviour

definition coap_send_sensor_data ::
  "platform \<Rightarrow> string option \<Rightarrow> string option \<Rightarrow> send_outcome \<times> event list" where
  "coap_send_sensor_data pf uri payload =
     (if uri = None \<or> payload = None then (InvalidParameters, [])
      else
        (case parse_coap_uri uri of
           ParseFail \<Rightarrow> (ParseError, [ParseUri])
         | ParseOverrun \<Rightarrow> (UndefinedBehaviour, [ParseUri])
         | ParseOk parsed_uri \<Rightarrow>
             (case build_simple_coap_message parsed_uri payload (coap_buffer pf) 512 of
                (coap_buf, None) \<Rightarrow> (EncodeError, [ParseUri, BuildMessage])
              | (coap_buf, Some message_len) \<Rightarrow>
                  (case send_coap_udp pf parsed_uri coap_buf message_len of
                     (ok, events) \<Rightarrow>
                       (if ok then Sent else TransmitError,
                        [ParseUri, BuildMessage] @ events)))))"

definition coap_send_task ::
  "platform \<Rightarrow> string option \<Rightarrow> string option \<Rightarrow> send_outcome \<times> event list" where
  "coap_send_task pf uri payload =
     (case wait_for_wifi pf 10000 of
        (connected, waiting) \<Rightarrow>
          if \<not> connected then (NetworkUnavailable, waiting @ [TaskDelete])
          else (case coap_send_sensor_data pf uri payload of
                  (outcome, events) \<Rightarrow> (outcome, waiting @ events @ [TaskDelete])))"

text \<open>
  What a wait without an access point looks like: a query and a delay of 100 ms for each
  multiple of 100 ms from \<open>100 * k\<close> up to, not including, \<open>100 * n\<close>; and the time an
  event sequence spends in delays.
\<close>

definition polling :: "nat \<Rightarrow> nat \<Rightarrow> event list" where
  "polling k n = concat (map (\<lambda>i. [WifiQuery (100 * i) False, TaskDelay 100]) [k..<n])"

definition total_delay :: "event list \<Rightarrow> nat" where
  "total_delay es = sum_list (map (\<lambda>e. case e of TaskDelay ms \<Rightarrow> ms | _ \<Rightarrow> 0) es)"

text \<open>The sockets an event sequence leaves open.\<close>

fun open_sockets :: "event list \<Rightarrow> int list \<Rightarrow> int list" where
  "open_sockets [] fds = fds"
| "open_sockets (SocketCreate fd # es) fds =
     open_sockets es (if fd < 0 then fds else fd # fds)"
| "open_sockets (SocketClose fd # es) fds = open_sockets es (removeAll fd fds)"
| "open_sockets (e # es) fds = open_sockets es fds"

text \<open>The events that touch the parser, the encoder or the transport.\<close>

fun send_activity :: "event \<Rightarrow> bool" where
  "send_activity ParseUri = True"
| "send_activity BuildMessage = True"
| "send_activity (SocketCreate fd) = True"
| "send_activity (SendTo fd p m) = True"
| "send_activity (SocketClose fd) = True"
| "send_activity e = False"

subsection \<open>Sample builder states\<close>


definition msg1 :: coap_message_t where
  "msg1 = \<lparr>buffer = replicate 16 0, msg_length = 4, capacity = 16, last_option_number = 12\<rparr>"


subsection \<open>Sample platforms and inputs\<close>

definition pf_ok :: platform where
  "pf_ok = \<lparr>ap_info_ok = (\<lambda>t. True), socket_result = 3, inet_pton_result = (\<lambda>h. 1),
            sendto_result = (\<lambda>m. int (length m)), coap_buffer = replicate 512 0\<rparr>"

definition pf_short_send :: platform where
  "pf_short_send = pf_ok\<lparr>sendto_result := (\<lambda>m. 3)\<rparr>"

definition pf_send_fails :: platform where
  "pf_send_fails = pf_ok\<lparr>sendto_result := (\<lambda>m. - 1)\<rparr>"

definition pf_bad_address :: platform where
  "pf_bad_address = pf_ok\<lparr>inet_pton_result := (\<lambda>h. 0)\<rparr>"

definition pf_no_wifi :: platform where
  "pf_no_wifi = pf_ok\<lparr>ap_info_ok := (\<lambda>t. False)\<rparr>"

definition uri_collector :: coap_uri_t where
  "uri_collector = \<lparr>host = ''192.168.1.52'', port = 5683, path = ''sensor/send-data'', query = ''''\<rparr>"

definition msg9 :: "u8 list" where
  "msg9 = [0x40, 0x02, 0x12, 0x34, 0x11, 0x32, 0xFF, 0x7B, 0x7D]"

definition uri_no_path :: coap_uri_t where
  "uri_no_path = \<lparr>host = ''192.168.1.52'', port = 5683, path = '''', query = ''''\<rparr>"

definition uri_long_segment :: coap_uri_t where
  "uri_long_segment =
     \<lparr>host = ''10.0.0.5'', port = 5683, path = ''sensor/abcdefghijklm'', query = ''''\<rparr>"


section \<open>Properties of the general builder\<close>

subsection \<open>Words and bytes\<close>

lemma unat_drop8: "unat (drop_bit 8 (w::u16)) = unat w div 256"
  by (simp only: unat_drop_bit_eq) (simp add: drop_bit_eq_div)

lemma small_take4: "unat (b::u8) < 16 \<Longrightarrow> take_bit 4 b = b"
proof -
  assume "unat b < 16"
  then have "b < 2 ^ 4" by (simp add: word_less_nat_alt)
  then have "b AND mask 4 = b" by (rule less_mask_eq)
  then show ?thesis by (simp add: take_bit_eq_mask)
qed

lemma disj: "unat (b::u8) < 16 \<Longrightarrow> push_bit 4 (a :: u8) AND b = 0"
proof -
  assume b: "unat b < 16"
  have "push_bit 4 a AND take_bit 4 b = 0"
    by (simp add: bit_eq_iff bit_simps)
  then show ?thesis using small_take4 [OF b] by simp
qed

lemma first_byte: "unat b < 16 \<Longrightarrow> unat a < 16 \<Longrightarrow> unat (push_bit 4 (a :: u8) OR b) = 16 * unat a + unat b"
proof -
  assume b: "unat b < 16" and a: "unat a < 16"
  have "push_bit 4 a + b = push_bit 4 a OR b"
    by (rule disjunctive_add_eq_or) (rule disj [OF b])
  then have "unat (push_bit 4 a OR b) = unat (push_bit 4 a + b)"
    by simp
  also have "\<dots> = (unat (push_bit 4 a) + unat b) mod 256"
    by (simp add: unat_word_ariths)
  also have "unat (push_bit 4 a) = 16 * unat a"
    using a by (simp add: push_bit_eq_mult unat_word_ariths)
  finally show ?thesis using a b by simp
qed
lemma word_ge13: "(13 \<le> (d::u16)) = (13 \<le> unat d)"
  by (simp add: word_le_nat_alt)
lemma word_ge269: "(269 \<le> (d::u16)) = (269 \<le> unat d)"
  by (simp add: word_le_nat_alt)
lemma word_lt13: "((d::u16) < 13) = (unat d < 13)"
  by (simp add: word_less_nat_alt)
lemma word_lt269: "((d::u16) < 269) = (unat d < 269)"
  by (simp add: word_less_nat_alt)

lemma ff_mask: "(0xFF :: 'a::len word) = mask 8"
  by (simp add: mask_eq_exp_minus_1)

lemma and_ff: "(w :: 'a::len word) AND 0xFF = take_bit 8 w"
  by (simp add: ff_mask take_bit_eq_mask)

lemma and_ff8: "(w :: u8) AND 0xFF = w"
  by (simp add: and_ff take_bit_word_eq_self)

lemma ucast_and_ff16: "(ucast ((w::u16) AND 0xFF) :: u8) = ucast w"
  by (simp add: and_ff bit_eq_iff bit_simps) 

lemma unat_ucast_16_8: "unat (ucast (w::u16) :: u8) = unat w mod 256"
  by (simp add: unsigned_ucast_eq take_bit_eq_mod)

lemma u8_eq_of_nat: "unat (w::u8) = n mod 256 \<Longrightarrow> w = of_nat n"
proof -
  assume a: "unat w = n mod 256"
  have "w = of_nat (unat w)" by simp
  also have "\<dots> = of_nat (n mod 256)" using a by simp
  also have "\<dots> = (of_nat n :: u8)"
    by (simp add: word_eq_iff_unsigned [where ?'a = nat] unat_of_nat)
  finally show ?thesis .
qed

lemma ucast_small: "unat (d::u16) < 256 \<Longrightarrow> unat (ucast d :: u8) = unat d"
  by (simp add: unat_ucast_16_8)

lemma nib_delta_small: "unat (d::u16) < 13 \<Longrightarrow> (ucast d :: u8) \<noteq> 13 \<and> (ucast d :: u8) \<noteq> 14"
proof -
  assume a: "unat d < 13"
  then have "unat (ucast d :: u8) = unat d" by (simp add: ucast_small)
  with a show ?thesis by auto
qed

lemma unat_of_nat_small: "n < 256 \<Longrightarrow> unat (of_nat n :: u8) = n"
  by (simp add: unat_of_nat)

lemma nib_len_small: "n < 13 \<Longrightarrow> (of_nat n :: u8) \<noteq> 13 \<and> (of_nat n :: u8) \<noteq> 14"
proof -
  assume a: "n < 13"
  then have "unat (of_nat n :: u8) = n" by (simp add: unat_of_nat_small)
  with a show ?thesis by auto
qed

lemma first_byte_eq:
  assumes "unat a < 16" "unat b < 16"
  shows "push_bit 4 (a::u8) OR b = of_nat (16 * unat a + unat b)"
  by (rule u8_eq_of_nat) (use assms in \<open>simp add: first_byte\<close>)

lemma ext1_delta: "13 \<le> unat (d::u16) \<Longrightarrow> unat d < 269 \<Longrightarrow>
   (ucast ((d - 13) AND 0xFF) :: u8) = of_nat (unat d - 13)"
  by (rule u8_eq_of_nat) (simp add: ucast_and_ff16 unat_ucast_16_8 unat_sub word_le_nat_alt)

lemma ext2_hi: "269 \<le> unat (d::u16) \<Longrightarrow>
   (ucast (drop_bit 8 (d - 269) AND 0xFF) :: u8) = of_nat ((unat d - 269) div 256)"
  by (rule u8_eq_of_nat) (simp add: ucast_and_ff16 unat_ucast_16_8 unat_drop8 unat_sub word_le_nat_alt)

lemma ext2_lo: "269 \<le> unat (d::u16) \<Longrightarrow>
   (ucast ((d - 269) AND 0xFF) :: u8) = of_nat ((unat d - 269) mod 256)"
  by (rule u8_eq_of_nat) (simp add: ucast_and_ff16 unat_ucast_16_8 unat_sub word_le_nat_alt)

lemma ext2_len_hi: 
   "(ucast (drop_bit 8 (of_nat m :: u16) AND 0xFF) :: u8) = of_nat (m div 256)"
proof (rule u8_eq_of_nat)
  have "m mod (256 * 256) = 256 * (m div 256 mod 256) + m mod 256"
    by (rule mod_mult2_eq)
  then have "(m mod 65536) div 256 = m div 256 mod 256"
    by simp
  then show "unat (ucast (drop_bit 8 (of_nat m :: u16) AND 0xFF) :: u8) = m div 256 mod 256"
    by (simp add: ucast_and_ff16 unat_ucast_16_8 unat_drop8 unat_of_nat)
qed

lemma ext2_len_lo: 
   "(ucast ((of_nat m :: u16) AND 0xFF) :: u8) = of_nat (m mod 256)"
proof (rule u8_eq_of_nat)
  have "(m mod 65536) mod 256 = m mod 256" 
    by (rule mod_mod_cancel) simp
  then show "unat (ucast ((of_nat m :: u16) AND 0xFF) :: u8) = m mod 256 mod 256"
    by (simp add: ucast_and_ff16 unat_ucast_16_8 unat_of_nat)
qed

subsection \<open>What a successful append writes\<close>


lemma size_t_le: "size_t n \<le> n"
  by (simp add: size_t_def)

lemma size_t_add_left: "size_t (size_t a + b) = size_t (a + b)"
  unfolding size_t_def by (rule mod_add_left_eq)

lemma size_t_add_right: "size_t (a + size_t b) = size_t (a + b)"
  unfolding size_t_def by (rule mod_add_right_eq)

lemma size_t_Suc: "size_t (Suc (size_t a)) = size_t (Suc a)"
  unfolding size_t_def by (rule mod_Suc_eq)

lemma size_t_Suc_Suc: "size_t (Suc (Suc (size_t a))) = size_t (Suc (Suc a))"
  using size_t_add_left [of a 2] by simp

lemma size_t_Suc_add: "size_t (Suc (size_t a + b)) = size_t (Suc (a + b))"
  using size_t_add_left [of a "Suc b"] by simp

lemma size_t_Suc_Suc_add: "size_t (Suc (Suc (size_t a + b))) = size_t (Suc (Suc (a + b)))"
  using size_t_add_left [of a "Suc (Suc b)"] by simp

lemma size_t_Suc_add2: "size_t (Suc (b + size_t a)) = size_t (Suc (b + a))"
  using size_t_add_right [of "Suc b" a] by simp

lemma size_t_Suc_Suc_add2: "size_t (Suc (Suc (b + size_t a))) = size_t (Suc (Suc (b + a)))"
  using size_t_add_right [of "Suc (Suc b)" a] by simp

lemmas size_t_sums = size_t_add_left size_t_add_right size_t_Suc size_t_Suc_Suc
  size_t_Suc_add size_t_Suc_Suc_add size_t_Suc_add2 size_t_Suc_Suc_add2

lemma memcpy_append: "memcpy buf pos (xs @ ys) = memcpy (memcpy buf pos xs) (pos + length xs) ys"
  by (induction xs arbitrary: buf pos) simp_all

lemma memcpy_length [simp]: "length (memcpy buf pos xs) = length buf"
  by (induction xs arbitrary: buf pos) simp_all

lemma add_option_success:
  assumes ok: "\<not> (val = None \<and> 0 < value_len)"
    and fit: "\<not> capacity msg <
                size_t (msg_length msg + spec_option_size (n - last_option_number msg) value_len)"
  shows "coap_message_add_option msg n val value_len =
     (True, msg\<lparr>buffer := memcpy (buffer msg) (msg_length msg)
                    (spec_option_header (unat (n - last_option_number msg)) value_len @ opt_value val value_len),
                 msg_length :=
                   size_t (msg_length msg + spec_option_size (n - last_option_number msg) value_len),
                 last_option_number := n\<rparr>)"
proof -
  define d where "d = n - last_option_number msg"
  note defs = word_ge13 word_ge269 word_lt13 word_lt269 nib_delta_small nib_len_small
            spec_option_header_def spec_nibble_def spec_ext_field_def opt_value_def spec_option_size_def spec_ext_bytes_def
            ext1_delta ext2_hi ext2_lo and_ff8 ext2_len_hi ext2_len_lo memcpy_append
            size_t_sums
  have fit': "\<not> capacity msg < size_t (msg_length msg + spec_option_size d value_len)"
    using fit by (simp add: d_def)
  have fb: "\<And>a l. a < 16 \<Longrightarrow> l < 16 \<Longrightarrow> push_bit 4 (of_nat a :: u8) OR of_nat l = of_nat (16 * a + l)"
    by (simp add: first_byte_eq unat_of_nat_small)
  have fbd: "\<And>l. unat d < 13 \<Longrightarrow> l < 16 \<Longrightarrow> push_bit 4 (ucast d :: u8) OR of_nat l = of_nat (16 * unat d + l)"
    by (simp add: first_byte_eq ucast_small unat_of_nat_small)
  consider (x) "value_len = 0" | (y) "0 < value_len" "value_len < 13" | (z) "13 \<le> value_len" "value_len < 269" | (w) "269 \<le> value_len"
    by linarith
  then show ?thesis
  proof cases
    case x
    consider (a) "unat d < 13" | (b) "13 \<le> unat d" "unat d < 269" | (c) "269 \<le> unat d"
      by linarith
    then show ?thesis
    proof cases
      case a
      then show ?thesis using x fit' ok fbd [of 0]
        unfolding coap_message_add_option_def Let_def d_def [symmetric]
        by (simp add: defs del: of_nat_diff)
    next
      case b
      then show ?thesis using x fit' ok fb [of 13 0]
        unfolding coap_message_add_option_def Let_def d_def [symmetric]
        by (simp add: defs del: of_nat_diff)
    next
      case c
      then show ?thesis using x fit' ok fb [of 14 0]
        unfolding coap_message_add_option_def Let_def d_def [symmetric]
        by (simp add: defs del: of_nat_diff)
    qed
  next
    case y
    consider (a) "unat d < 13" | (b) "13 \<le> unat d" "unat d < 269" | (c) "269 \<le> unat d"
      by linarith
    then show ?thesis
    proof cases
      case a
      then show ?thesis using y fit' ok fbd [of value_len]
        unfolding coap_message_add_option_def Let_def d_def [symmetric]
        by (simp add: defs del: of_nat_diff)
    next
      case b
      then show ?thesis using y fit' ok fb [of 13 value_len]
        unfolding coap_message_add_option_def Let_def d_def [symmetric]
        by (simp add: defs del: of_nat_diff)
    next
      case c
      then show ?thesis using y fit' ok fb [of 14 value_len]
        unfolding coap_message_add_option_def Let_def d_def [symmetric]
        by (simp add: defs del: of_nat_diff)
    qed
  next
    case z
    consider (a) "unat d < 13" | (b) "13 \<le> unat d" "unat d < 269" | (c) "269 \<le> unat d"
      by linarith
    then show ?thesis
    proof cases
      case a
      then show ?thesis using z fit' ok fbd [of 13]
        unfolding coap_message_add_option_def Let_def d_def [symmetric]
        by (simp add: defs del: of_nat_diff)
    next
      case b
      then show ?thesis using z fit' ok fb [of 13 13]
        unfolding coap_message_add_option_def Let_def d_def [symmetric]
        by (simp add: defs del: of_nat_diff)
    next
      case c
      then show ?thesis using z fit' ok fb [of 14 13]
        unfolding coap_message_add_option_def Let_def d_def [symmetric]
        by (simp add: defs del: of_nat_diff)
    qed
  next
    case w
    consider (a) "unat d < 13" | (b) "13 \<le> unat d" "unat d < 269" | (c) "269 \<le> unat d"
      by linarith
    then show ?thesis
    proof cases
      case a
      then show ?thesis using w fit' ok fbd [of 14]
        unfolding coap_message_add_option_def Let_def d_def [symmetric]
        by (simp add: defs del: of_nat_diff)
    next
      case b
      then show ?thesis using w fit' ok fb [of 13 14]
        unfolding coap_message_add_option_def Let_def d_def [symmetric]
        by (simp add: defs del: of_nat_diff)
    next
      case c
      then show ?thesis using w fit' ok fb [of 14 14]
        unfolding coap_message_add_option_def Let_def d_def [symmetric]
        by (simp add: defs del: of_nat_diff)
    qed
  qed
qed

lemma memcpy_eq:
  "pos + length xs \<le> length buf \<Longrightarrow>
   memcpy buf pos xs = take pos buf @ xs @ drop (pos + length xs) buf"
proof (induction xs arbitrary: buf pos)
  case Nil
  then show ?case by simp
next
  case (Cons x xs)
  from Cons.prems have lt: "pos < length buf" by simp
  have "memcpy (buf[pos := x]) (Suc pos) xs =
        take (Suc pos) (buf[pos := x]) @ xs @ drop (Suc pos + length xs) (buf[pos := x])"
    using Cons.prems by (intro Cons.IH) simp
  also have "take (Suc pos) (buf[pos := x]) = take pos buf @ [x]"
    using lt by (simp add: take_Suc_conv_app_nth)
  also have "drop (Suc pos + length xs) (buf[pos := x]) = drop (Suc pos + length xs) buf"
    by simp
  finally show ?case by simp
qed

lemma drop_memcpy:
  "pos + length xs \<le> length buf \<Longrightarrow>
   drop pos (memcpy buf pos xs) = xs @ drop (pos + length xs) buf"
  by (simp add: memcpy_eq)


lemma take_length_takeWhile: "take (length (takeWhile P xs)) xs = takeWhile P xs"
  by (induction xs) simp_all

lemma take_strlen: "take (strlen p) p = cstr p"
  by (simp add: strlen_def cstr_def take_length_takeWhile)



lemma length_ext_field: "length (spec_ext_field x) = spec_ext_bytes x"
  by (simp add: spec_ext_field_def spec_ext_bytes_def)

lemma length_option_header:
  "length (spec_option_header d l) = 1 + spec_ext_bytes d + spec_ext_bytes l"
  by (simp add: spec_option_header_def length_ext_field)

lemma length_opt_value: "length (opt_value val value_len) \<le> value_len"
  by (simp add: opt_value_def)

lemma first_byte_div:
  "a < 16 \<Longrightarrow> b < 16 \<Longrightarrow> unat (of_nat (16 * a + b) :: u8) div 16 = a"
  by (simp add: unat_of_nat del: of_nat_add of_nat_mult)

lemma decode_option_header:
  assumes "d < 65536"
  shows "spec_decode_option_delta (spec_option_header d l @ rest) = Some d"
proof -
  have nl: "spec_nibble l < 16" by (simp add: spec_nibble_def)
  consider (a) "d < 13" | (b) "13 \<le> d" "d < 269" | (c) "269 \<le> d"
    by linarith
  then show ?thesis
  proof cases
    case a
    then have nd: "spec_nibble d = d" by (simp add: spec_nibble_def)
    have "unat (of_nat (16 * spec_nibble d + spec_nibble l) :: u8) div 16 = d"
      using a nl nd first_byte_div [of "spec_nibble d" "spec_nibble l"] by simp
    then show ?thesis using a
      by (simp add: spec_decode_option_delta_def spec_option_header_def Let_def
          del: of_nat_add of_nat_mult)
  next
    case b
    then have "unat (of_nat (d - 13) :: u8) = d - 13"
      by (simp add: unat_of_nat del: of_nat_diff)
    moreover have nd: "spec_nibble d = 13" using b by (simp add: spec_nibble_def)
    moreover have "unat (of_nat (16 * spec_nibble d + spec_nibble l) :: u8) div 16 = 13"
      using nl nd first_byte_div [of "spec_nibble d" "spec_nibble l"] by simp
    ultimately show ?thesis using b
      by (simp add: spec_decode_option_delta_def spec_option_header_def Let_def spec_ext_field_def
          del: of_nat_add of_nat_mult of_nat_diff)
  next
    case c
    have "(d - 269) div 256 < 256" using assms by simp
    then have hi: "unat (of_nat ((d - 269) div 256) :: u8) = (d - 269) div 256"
      by (simp add: unat_of_nat del: of_nat_diff)
    have lo: "unat (of_nat ((d - 269) mod 256) :: u8) = (d - 269) mod 256"
      by (simp add: unat_of_nat del: of_nat_diff)
    have nd: "spec_nibble d = 14" using c by (simp add: spec_nibble_def)
    have "256 * ((d - 269) div 256) + (d - 269) mod 256 + 269 = d"
      using c by simp
    moreover have "unat (of_nat (16 * spec_nibble d + spec_nibble l) :: u8) div 16 = 14"
      using nl nd first_byte_div [of "spec_nibble d" "spec_nibble l"] by simp
    ultimately show ?thesis using c hi lo
      by (simp add: spec_decode_option_delta_def spec_option_header_def Let_def spec_ext_field_def
          del: of_nat_add of_nat_mult of_nat_diff)
  qed
qed

lemma unat_u16_bound: "unat (w::u16) < 65536"
  using unsigned_less [of w, where 'a = nat] by simp

lemma unat_wrapped_sub:
  "(n::u16) < l \<Longrightarrow> unat (n - l) = 65536 - (unat l - unat n)"
  using unat_u16_bound [of l]
  by (simp add: unat_sub_if_size word_less_nat_alt word_size)

subsection \<open>Atomic appends and out-of-order options\<close>




lemma wrap_int:
  fixes a b :: nat
  assumes "a < b" "b < 65536"
  shows "65536 + int a - int b = (int a - int b) mod 65536"
proof -
  have "(int a - int b) mod 65536 = (int a - int b + 65536) mod 65536"
    by simp
  also have "\<dots> = int a - int b + 65536"
    using assms by (intro mod_pos_pos_trivial) linarith+
  finally show ?thesis by simp
qed

text \<open>
  Claim C10. The general builder accepts an option whose number \<open>n\<close> is below the last
  one \<open>L\<close>: when the value fits the remaining capacity the call succeeds, and the delta a
  receiver reads from the bytes written is the 16-bit difference \<open>(n - L) mod 2 ^ 16\<close>,
  which is \<open>65536 - (L - n)\<close>.
\<close>

theorem add_option_out_of_order:
  assumes lt: "n < last_option_number msg"
    and val: "\<not> (val = None \<and> 0 < value_len)"
    and fit: "msg_length msg + spec_option_size (n - last_option_number msg) value_len \<le> capacity msg"
    and cap: "capacity msg \<le> length (buffer msg)"
  shows "fst (coap_message_add_option msg n val value_len) \<and>
         spec_decode_option_delta
           (drop (msg_length msg) (buffer (snd (coap_message_add_option msg n val value_len))))
           = Some (unat (n - last_option_number msg)) \<and>
         unat (n - last_option_number msg) = 65536 - (unat (last_option_number msg) - unat n) \<and>
         int (unat (n - last_option_number msg)) =
           (int (unat n) - int (unat (last_option_number msg))) mod 2 ^ 16"
proof -
  let ?d = "n - last_option_number msg"
  let ?bytes = "spec_option_header (unat ?d) value_len @ opt_value val value_len"
  have len: "length ?bytes \<le> spec_option_size ?d value_len"
    using length_opt_value [of val value_len]
    by (simp add: length_option_header spec_option_size_def)
  have inb: "msg_length msg + length ?bytes \<le> length (buffer msg)"
    using len fit cap by linarith
  have pass: "\<not> capacity msg < size_t (msg_length msg + spec_option_size ?d value_len)"
    using fit size_t_le [of "msg_length msg + spec_option_size ?d value_len"] by linarith
  have res: "coap_message_add_option msg n val value_len =
     (True, msg\<lparr>buffer := memcpy (buffer msg) (msg_length msg) ?bytes,
                 msg_length := size_t (msg_length msg + spec_option_size ?d value_len),
                 last_option_number := n\<rparr>)"
    by (rule add_option_success [OF val pass])
  have "drop (msg_length msg) (memcpy (buffer msg) (msg_length msg) ?bytes) =
        spec_option_header (unat ?d) value_len @
          (opt_value val value_len @ drop (msg_length msg + length ?bytes) (buffer msg))"
    using drop_memcpy [OF inb] by simp
  then have dec: "spec_decode_option_delta
           (drop (msg_length msg) (buffer (snd (coap_message_add_option msg n val value_len))))
           = Some (unat ?d)"
    using decode_option_header [OF unat_u16_bound [of ?d]] by (simp add: res)
  have w: "unat ?d = 65536 - (unat (last_option_number msg) - unat n)"
    by (rule unat_wrapped_sub [OF lt])
  have lt': "unat n < unat (last_option_number msg)"
    using lt by (simp add: word_less_nat_alt)
  have "int (unat ?d) = 65536 + int (unat n) - int (unat (last_option_number msg))"
    using w lt' unat_u16_bound [of "last_option_number msg"] by linarith
  also have "\<dots> = (int (unat n) - int (unat (last_option_number msg))) mod 2 ^ 16"
    using wrap_int [OF lt' unat_u16_bound [of "last_option_number msg"]] by simp
  finally show ?thesis using dec w res by simp
qed

theorem add_option_out_of_order_witness:
  "(11 :: u16) < last_option_number msg1 \<and>
   fst (coap_message_add_option msg1 11 (Some [97, 98]) 2) \<and>
   spec_decode_option_delta
     (drop 4 (buffer (snd (coap_message_add_option msg1 11 (Some [97, 98]) 2)))) = Some 65535"
proof -
  have lt: "(11 :: u16) < last_option_number msg1" by (simp add: msg1_def)
  have v: "\<not> (Some [97, 98 :: u8] = None \<and> 0 < (2::nat))" by simp
  have d: "(11 :: u16) - last_option_number msg1 = 65535" by (simp add: msg1_def)
  have fit: "msg_length msg1 + spec_option_size (11 - last_option_number msg1) 2 \<le> capacity msg1"
    by (simp add: d spec_option_size_def spec_ext_bytes_def) (simp add: msg1_def)
  have cap: "capacity msg1 \<le> length (buffer msg1)" by (simp add: msg1_def)
  have l: "msg_length msg1 = 4" by (simp add: msg1_def)
  show ?thesis
    using add_option_out_of_order [OF lt v fit cap] lt by (simp add: d l)
qed

section \<open>Properties of the simplified encoder\<close>

subsection \<open>C strings and tokens\<close>

lemma cstr_nul_free: "NUL \<notin> set s \<Longrightarrow> cstr s = s"
  by (auto simp: cstr_def takeWhile_eq_all_conv)

lemma strlen_nul_free: "NUL \<notin> set s \<Longrightarrow> strlen s = length s"
  by (simp add: strlen_def cstr_nul_free)

lemma cstr_no_nul: "NUL \<notin> set (cstr s)"
  unfolding cstr_def by (induction s) auto

lemma strncpy_no_nul: "NUL \<notin> set (strncpy s n)"
  unfolding strncpy_def using cstr_no_nul [of s] by (auto dest: in_set_takeD)

lemma strncpy_fits: "NUL \<notin> set s \<Longrightarrow> length s \<le> n \<Longrightarrow> strncpy s n = s"
  by (simp add: strncpy_def cstr_nul_free)

lemma strtok_None: "fst (strtok s d) = None \<Longrightarrow> strtok_all s d = []"
  by (subst strtok_all.simps) simp

lemma strtok_Some:
  "fst (strtok s d) = Some t \<Longrightarrow> strtok_all s d = t # strtok_all (snd (strtok s d)) d"
  by (subst strtok_all.simps) simp

lemma strtok_token_nonempty: "fst (strtok s d) = Some t \<Longrightarrow> t \<noteq> []"
proof -
  assume a: "fst (strtok s d) = Some t"
  define s1 where "s1 = dropWhile (\<lambda>c. c \<in> set d) s"
  have eq: "strtok s d =
     (if s1 = [] then (None, []) else (Some (takeWhile (\<lambda>c. c \<notin> set d) s1),
        drop 1 (dropWhile (\<lambda>c. c \<notin> set d) s1)))"
    unfolding strtok_def s1_def Let_def ..
  from a eq have ne: "s1 \<noteq> []" and t: "t = takeWhile (\<lambda>c. c \<notin> set d) s1"
    by (auto split: if_splits)
  from ne have "hd s1 \<notin> set d"
    unfolding s1_def by (rule hd_dropWhile)
  with ne show ?thesis unfolding t by (cases s1) auto
qed

lemma strtok_token_subset: "fst (strtok s d) = Some t \<Longrightarrow> set t \<subseteq> set s"
proof -
  assume a: "fst (strtok s d) = Some t"
  have "set (takeWhile (\<lambda>c. c \<notin> set d) (dropWhile (\<lambda>c. c \<in> set d) s))
        \<subseteq> set (dropWhile (\<lambda>c. c \<in> set d) s)"
    by (auto dest: set_takeWhileD)
  also have "\<dots> \<subseteq> set s" by (auto dest: set_dropWhileD)
  finally show ?thesis using a by (auto simp: strtok_def Let_def split: if_splits)
qed

lemma strtok_rest_subset: "set (snd (strtok s d)) \<subseteq> set s"
proof -
  have "set (drop 1 (dropWhile (\<lambda>c. c \<notin> set d) (dropWhile (\<lambda>c. c \<in> set d) s)))
        \<subseteq> set (dropWhile (\<lambda>c. c \<notin> set d) (dropWhile (\<lambda>c. c \<in> set d) s))"
    by (rule set_drop_subset)
  also have "\<dots> \<subseteq> set (dropWhile (\<lambda>c. c \<in> set d) s)"
    by (auto dest: set_dropWhileD)
  also have "\<dots> \<subseteq> set s" by (auto dest: set_dropWhileD)
  finally show ?thesis by (auto simp: strtok_def Let_def)
qed

lemma strtok_segment_more:
  assumes "s \<noteq> []" "CHR ''/'' \<notin> set s"
  shows "strtok (s @ CHR ''/'' # r) ''/'' = (Some s, r)"
proof -
  from assms obtain c cs where s: "s = c # cs" and c: "c \<noteq> CHR ''/''"
    by (cases s) auto
  have tw: "takeWhile (\<lambda>c. c \<noteq> CHR ''/'') (s @ CHR ''/'' # r) = s"
    using assms by (subst takeWhile_append2) auto
  have dw: "dropWhile (\<lambda>c. c \<noteq> CHR ''/'') (s @ CHR ''/'' # r) = CHR ''/'' # r"
    using assms by (subst dropWhile_append2) auto
  have sk: "dropWhile (\<lambda>c. c = CHR ''/'') (s @ CHR ''/'' # r) = s @ CHR ''/'' # r"
    using c by (simp add: s)
  show ?thesis
    using assms by (simp add: strtok_def Let_def tw dw sk)
qed

lemma strtok_segment_last:
  assumes "s \<noteq> []" "CHR ''/'' \<notin> set s"
  shows "strtok s ''/'' = (Some s, [])"
proof -
  from assms obtain c cs where s: "s = c # cs" and c: "c \<noteq> CHR ''/''"
    by (cases s) auto
  have tw: "takeWhile (\<lambda>c. c \<noteq> CHR ''/'') s = s"
    using assms by (auto simp: takeWhile_eq_all_conv)
  have dw: "dropWhile (\<lambda>c. c \<noteq> CHR ''/'') s = []"
    using assms by auto
  have sk: "dropWhile (\<lambda>c. c = CHR ''/'') s = s"
    using c by (simp add: s)
  show ?thesis
    using assms by (simp add: strtok_def Let_def tw dw sk)
qed

lemma strtok_empty: "strtok [] d = (None, [])"
  by (simp add: strtok_def)

lemma strtok_all_join:
  "list_all (\<lambda>s. s \<noteq> [] \<and> CHR ''/'' \<notin> set s) segs \<Longrightarrow> strtok_all (join_path segs) ''/'' = segs"
proof (induction segs rule: join_path.induct)
  case 1
  show ?case by (simp add: strtok_None strtok_empty)
next
  case (2 s)
  then show ?case
    by (simp add: strtok_Some [of s _ s] strtok_None strtok_segment_last strtok_empty)
next
  case (3 s t ss)
  then have "strtok (join_path (s # t # ss)) ''/'' = (Some s, join_path (t # ss))"
    by (simp add: strtok_segment_more)
  with 3 show ?case by (simp add: strtok_Some [of _ _ s])
qed

subsection \<open>The segment loop\<close>

lemma option_header_short: "d < 13 \<Longrightarrow> n < 13 \<Longrightarrow> spec_option_header d n = [of_nat (16 * d + n)]"
  by (simp add: spec_option_header_def spec_nibble_def spec_ext_field_def)

lemma uri_path_first_byte: "n \<le> 12 \<Longrightarrow> (0xB0 :: u8) OR of_nat n = of_nat (16 * 11 + n)"
proof -
  assume n: "n \<le> 12"
  have "push_bit 4 (11 :: u8) OR of_nat n = of_nat (16 * unat (11 :: u8) + unat (of_nat n :: u8))"
    using n by (intro first_byte_eq) (simp_all add: unat_of_nat_small)
  moreover have "push_bit 4 (11 :: u8) = 0xB0" by simp
  ultimately show ?thesis using n by (simp add: unat_of_nat_small del: of_nat_add)
qed

lemma uri_path_byte:
  "n \<le> 12 \<Longrightarrow>
   [(if first then 0xB0 else 0x00) OR (of_nat n :: u8)] =
   spec_option_header (11 - (if first then 0 else 11)) n"
  using uri_path_first_byte [of n]
  by (simp add: option_header_short del: of_nat_add)

lemma uri_path_loop_ok:
  assumes "list_all (\<lambda>t. length t \<le> 12) (strtok_all x d)"
    and "NUL \<notin> set x"
    and "pos + length (spec_encode_options prev (uri_path_opts (strtok_all x d))) \<le> buffer_size"
    and "prev = (if first then 0 else 11)"
    and "d = ''/''"
  shows "uri_path_loop buf buffer_size pos first (fst (strtok x d)) (snd (strtok x d)) =
          (memcpy buf pos (spec_encode_options prev (uri_path_opts (strtok_all x d))),
           Some (pos + length (spec_encode_options prev (uri_path_opts (strtok_all x d)))))"
  using assms
proof (induction x d arbitrary: buf pos first prev rule: strtok_all.induct)
  case (1 s delim)
  show ?case
  proof (cases "fst (strtok s delim)")
    case None
    then show ?thesis by (simp add: uri_path_opts_def strtok_None)
  next
    case (Some t)
    define rest where "rest = snd (strtok s delim)"
    define toks where "toks = strtok_all rest delim"
    have all: "strtok_all s delim = t # toks"
      using Some by (simp add: toks_def rest_def strtok_Some)
    have tne: "t \<noteq> []" using Some by (rule strtok_token_nonempty)
    have tnul: "NUL \<notin> set t" using strtok_token_subset [OF Some] "1.prems"(2) by auto
    have rnul: "NUL \<notin> set rest" using strtok_rest_subset [of s delim] "1.prems"(2)
      by (auto simp: rest_def)
    have sl: "strlen t = length t" using tnul by (rule strlen_nul_free)
    have t12: "length t \<le> 12" and rest12: "list_all (\<lambda>t. length t \<le> 12) toks"
      using "1.prems"(1) by (simp_all add: all)
    define hd_bytes where "hd_bytes = spec_option_header (11 - prev) (length t)"
    have hdb: "hd_bytes = [(if first then 0xB0 else 0x00) OR (of_nat (length t) :: u8)]"
      using uri_path_byte [OF t12, of first] "1.prems"(4) by (simp add: hd_bytes_def)
    have enc: "spec_encode_options prev (uri_path_opts (strtok_all s delim)) =
               hd_bytes @ bytes_of t @ spec_encode_options 11 (uri_path_opts toks)"
      by (simp add: all uri_path_opts_def hd_bytes_def bytes_of_def)
    have lenb: "length (bytes_of t) = length t" by (simp add: bytes_of_def)
    have fit: "pos + 1 + length t + length (spec_encode_options 11 (uri_path_opts toks)) \<le> buffer_size"
      using "1.prems"(3) by (simp add: enc hdb lenb)
    let ?buf' = "memcpy (buf[pos := (if first then 0xB0 else 0x00) OR of_nat (strlen t)])
                     (pos + 1) (bytes_of (take (strlen t) t))"
    have IH: "uri_path_loop ?buf' buffer_size (pos + 1 + length t) False
                 (fst (strtok rest delim)) (snd (strtok rest delim)) =
              (memcpy ?buf' (pos + 1 + length t) (spec_encode_options 11 (uri_path_opts toks)),
               Some (pos + 1 + length t + length (spec_encode_options 11 (uri_path_opts toks))))"
      unfolding toks_def rest_def
      using rest12 rnul fit "1.prems"(5)
      by (intro "1.IH" [OF Some]) (simp_all add: toks_def rest_def)
    have buf': "?buf' = memcpy buf pos (hd_bytes @ bytes_of t)"
      by (simp add: hdb sl)
    have step: "uri_path_loop buf buffer_size pos first (Some t) rest =
          uri_path_loop ?buf' buffer_size (pos + 1 + length t) False
                 (fst (strtok rest delim)) (snd (strtok rest delim))"
      using tne t12 fit "1.prems"(5) by (simp add: sl)
    have "memcpy ?buf' (pos + 1 + length t) (spec_encode_options 11 (uri_path_opts toks)) =
          memcpy buf pos (spec_encode_options prev (uri_path_opts (strtok_all s delim)))"
      unfolding buf' enc
      using memcpy_append [of buf pos "hd_bytes @ bytes_of t" "spec_encode_options 11 (uri_path_opts toks)"]
      by (simp add: hdb lenb)
    moreover have "pos + 1 + length t + length (spec_encode_options 11 (uri_path_opts toks)) =
        pos + length (spec_encode_options prev (uri_path_opts (strtok_all s delim)))"
      by (simp add: enc hdb lenb)
    ultimately show ?thesis
      using step IH Some by (simp add: rest_def)
  qed
qed

lemma uri_path_loop_long:
  assumes "\<not> list_all (\<lambda>t. length t \<le> 12) (strtok_all x d)"
    and "NUL \<notin> set x"
    and "d = ''/''"
  shows "snd (uri_path_loop buf buffer_size pos first (fst (strtok x d)) (snd (strtok x d))) = None"
  using assms
proof (induction x d arbitrary: buf pos first rule: strtok_all.induct)
  case (1 s delim)
  show ?case
  proof (cases "fst (strtok s delim)")
    case None
    with "1.prems"(1) show ?thesis by (simp add: strtok_None)
  next
    case (Some t)
    define rest where "rest = snd (strtok s delim)"
    define toks where "toks = strtok_all rest delim"
    have all: "strtok_all s delim = t # toks"
      using Some by (simp add: toks_def rest_def strtok_Some)
    have tne: "t \<noteq> []" using Some by (rule strtok_token_nonempty)
    have tnul: "NUL \<notin> set t" using strtok_token_subset [OF Some] "1.prems"(2) by auto
    have rnul: "NUL \<notin> set rest" using strtok_rest_subset [of s delim] "1.prems"(2)
      by (auto simp: rest_def)
    have sl: "strlen t = length t" using tnul by (rule strlen_nul_free)
    show ?thesis
    proof (cases "12 < length t")
      case True
      then show ?thesis using tne Some by (simp add: sl)
    next
      case False
      then have later: "\<not> list_all (\<lambda>t. length t \<le> 12) toks"
        using "1.prems"(1) by (simp add: all)
      show ?thesis
      proof (cases "pos + 1 + length t > buffer_size")
        case True
        then show ?thesis using tne Some False by (simp add: sl)
      next
        case nofail: False
        let ?buf' = "memcpy (buf[pos := (if first then 0xB0 else 0x00) OR of_nat (strlen t)])
                     (pos + 1) (bytes_of (take (strlen t) t))"
        have IH: "snd (uri_path_loop ?buf' buffer_size (pos + 1 + length t) False
                 (fst (strtok rest delim)) (snd (strtok rest delim))) = None"
          unfolding rest_def
          using later rnul "1.prems"(3)
          by (intro "1.IH" [OF Some]) (simp_all add: toks_def rest_def)
        have step: "uri_path_loop buf buffer_size pos first (Some t) rest =
          uri_path_loop ?buf' buffer_size (pos + 1 + length t) False
                 (fst (strtok rest delim)) (snd (strtok rest delim))"
          using tne False nofail "1.prems"(3) by (simp add: sl)
        show ?thesis using step IH Some by (simp add: rest_def)
      qed
    qed
  qed
qed

subsection \<open>The whole message\<close>

lemma memcpy_header:
  "buf[0 := 0x40, 0 + 1 := 0x02, 0 + 2 := 0x12, 0 + 3 := 0x34] = memcpy buf 0 simple_header"
  by (simp add: simple_header_def numeral_2_eq_2 numeral_3_eq_3)

lemma length_simple_header: "length simple_header = 4"
  by (simp add: simple_header_def)

lemma memcpy_two: "buf[pos := a, Suc pos := b] = memcpy buf pos [a, b]"
  by simp

lemma memcpy_chain:
  "memcpy (memcpy buf pos xs) (pos + length xs) ys = memcpy buf pos (xs @ ys)"
  by (simp add: memcpy_append)

lemma strtok_all_empty: "strtok_all [] d = []"
  by (simp add: strtok_None strtok_empty)

lemma strncpy_empty: "strlen s = 0 \<Longrightarrow> strncpy s n = []"
  by (simp add: strncpy_def strlen_def)

lemma build_simple_path_part:
  assumes toks: "toks = strtok_all (strncpy (path uri) 63) ''/''"
    and short: "list_all (\<lambda>t. length t \<le> 12) toks"
    and fit: "4 + length (spec_encode_options 0 (uri_path_opts toks)) \<le> buffer_size"
  shows "(if strlen (path uri) > 0
          then uri_path_loop (memcpy buf 0 simple_header) buffer_size 4 True
                 (fst (strtok (strncpy (path uri) 63) ''/''))
                 (snd (strtok (strncpy (path uri) 63) ''/''))
          else (memcpy buf 0 simple_header, Some 4)) =
         (memcpy buf 0 (simple_header @ spec_encode_options 0 (uri_path_opts toks)),
          Some (4 + length (spec_encode_options 0 (uri_path_opts toks))))"
proof (cases "strlen (path uri) > 0")
  case True
  have "uri_path_loop (memcpy buf 0 simple_header) buffer_size 4 True
                 (fst (strtok (strncpy (path uri) 63) ''/''))
                 (snd (strtok (strncpy (path uri) 63) ''/'')) =
        (memcpy (memcpy buf 0 simple_header) 4 (spec_encode_options 0 (uri_path_opts toks)),
         Some (4 + length (spec_encode_options 0 (uri_path_opts toks))))"
    unfolding toks
    using short fit strncpy_no_nul [of "path uri" 63]
    by (intro uri_path_loop_ok) (simp_all add: toks)
  moreover have "memcpy (memcpy buf 0 simple_header) 4 (spec_encode_options 0 (uri_path_opts toks)) =
      memcpy buf 0 (simple_header @ spec_encode_options 0 (uri_path_opts toks))"
    using memcpy_chain [of buf 0 simple_header] by (simp add: length_simple_header)
  ultimately show ?thesis using True by simp
next
  case False
  then have "toks = []" by (simp add: toks strncpy_empty strtok_all_empty)
  with False show ?thesis by (simp add: uri_path_opts_def)
qed

lemma length_as_built:
  "length (as_built toks payload) =
     4 + length (spec_encode_options 0 (uri_path_opts toks)) + 2 + length (payload_bytes payload)"
  by (simp add: as_built_def length_simple_header)

lemma build_simple_ok:
  assumes toks: "toks = strtok_all (strncpy (path uri) 63) ''/''"
    and short: "list_all (\<lambda>t. length t \<le> 12) toks"
    and fit: "length (as_built toks payload) \<le> buffer_size"
  shows "build_simple_coap_message uri payload buf buffer_size =
           (memcpy buf 0 (as_built toks payload), Some (length (as_built toks payload)))"
proof -
  define opts where "opts = spec_encode_options 0 (uri_path_opts toks)"
  define p1 where "p1 = 4 + length opts"
  define b1 where "b1 = memcpy buf 0 (simple_header @ opts)"
  have fit4: "4 \<le> buffer_size" and fit1: "p1 + 2 \<le> buffer_size"
    and fitp: "p1 + 2 + length (payload_bytes payload) \<le> buffer_size"
    using fit by (simp_all add: length_as_built p1_def opts_def)
  have part: "(if strlen (path uri) > 0
          then uri_path_loop (memcpy buf 0 simple_header) buffer_size 4 True
                 (fst (strtok (strncpy (path uri) 63) ''/''))
                 (snd (strtok (strncpy (path uri) 63) ''/''))
          else (memcpy buf 0 simple_header, Some 4)) = (b1, Some p1)"
    unfolding b1_def p1_def opts_def
    using fit1 by (intro build_simple_path_part [OF toks short]) (simp add: p1_def opts_def)
  have lp1: "p1 = 0 + length (simple_header @ opts)"
    by (simp add: p1_def length_simple_header)
  have part': "(if strlen (path uri) > 0
          then uri_path_loop (buf[0 := 0x40, 0 + 1 := 0x02, 0 + 2 := 0x12, 0 + 3 := 0x34])
                 buffer_size (0 + 4) True
                 (fst (strtok (strncpy (path uri) 63) ''/''))
                 (snd (strtok (strncpy (path uri) 63) ''/''))
          else (buf[0 := 0x40, 0 + 1 := 0x02, 0 + 2 := 0x12, 0 + 3 := 0x34], Some (0 + 4)))
         = (b1, Some p1)"
    unfolding memcpy_header unfolding add_0 by (rule part)
  define b2 where "b2 = memcpy buf 0 (simple_header @ opts @ [0x11, 50])"
  have b2: "b1[p1 := 0x11, Suc p1 := 50] = b2"
    unfolding b1_def b2_def memcpy_two lp1 memcpy_chain by simp
  have lp2: "Suc (Suc p1) = 0 + length (simple_header @ opts @ [0x11, 50])"
    by (simp add: p1_def length_simple_header)
  have fin: "memcpy b2 (Suc (Suc p1)) (payload_bytes payload) = memcpy buf 0 (as_built toks payload)"
    unfolding b2_def lp2 memcpy_chain by (simp add: as_built_def opts_def)
  have len: "length (as_built toks payload) = Suc (Suc p1) + length (payload_bytes payload)"
    by (simp add: length_as_built p1_def opts_def)
  show ?thesis
  proof (cases "payload \<noteq> None \<and> strlen (the payload) > 0")
    case True
    then obtain p where p: "payload = Some p" and pl: "0 < strlen p" by auto
    have pb: "payload_bytes payload = 0xFF # bytes_of (take (strlen p) p)"
      using pl by (simp add: payload_bytes_def p take_strlen)
    have lpb: "length (payload_bytes payload) = 1 + strlen p"
      by (simp add: pb bytes_of_def strlen_def cstr_def take_length_takeWhile)
    have "build_simple_coap_message uri payload buf buffer_size =
          (memcpy (b2[Suc (Suc p1) := 0xFF]) (Suc (Suc (Suc p1))) (bytes_of (take (strlen p) p)),
           Some (Suc (Suc (Suc p1)) + strlen p))"
      unfolding build_simple_coap_message_def Let_def
      using part' fit4 fit1 fitp [unfolded lpb] pl
      by (simp add: b2 p)
    moreover have "length (bytes_of (take (strlen p) p)) = strlen p"
      unfolding take_strlen by (simp add: bytes_of_def strlen_def)
    ultimately show ?thesis using fin by (simp add: len pb)
  next
    case False
    then have pb: "payload_bytes payload = []"
      by (cases payload) (simp_all add: payload_bytes_def)
    have "build_simple_coap_message uri payload buf buffer_size = (b2, Some (Suc (Suc p1)))"
      unfolding build_simple_coap_message_def Let_def
      using part' fit4 fit1 False
      by (simp add: b2)
    then show ?thesis using fin by (simp add: len pb)
  qed
qed

lemma encode_options_content_format:
  "spec_encode_options prev (uri_path_opts segs @ [(12, [50])]) =
   spec_encode_options prev (uri_path_opts segs) @
     spec_option_header (12 - (if segs = [] then prev else 11)) 1 @ [50]"
  by (induction segs arbitrary: prev) (simp_all add: uri_path_opts_def)

lemma content_format_after_path: "spec_option_header 1 1 = [0x11]"
  by (simp add: spec_option_header_def spec_nibble_def spec_ext_field_def)

lemma content_format_alone: "spec_option_header 12 1 = [0xC1]"
  by (simp add: spec_option_header_def spec_nibble_def spec_ext_field_def)

lemma as_built_expected:
  assumes "segs \<noteq> []" "p \<noteq> []" "NUL \<notin> set p"
  shows "as_built segs (Some p) = spec_expected_message segs p"
proof -
  have "strlen p \<noteq> 0" using assms by (simp add: strlen_nul_free)
  then have "payload_bytes (Some p) = 0xFF # bytes_of p"
    using assms by (simp add: payload_bytes_def cstr_nul_free)
  moreover have "spec_encode_options 0 (spec_message_options segs) =
      spec_encode_options 0 (uri_path_opts segs) @ spec_option_header (12 - 11) 1 @ [50]"
    using assms(1) encode_options_content_format [of 0 segs]
    by (simp add: spec_message_options_def uri_path_opts_def)
  moreover have "spec_option_header (12 - 11) 1 = [0x11]"
    using content_format_after_path by simp
  ultimately show ?thesis by (simp add: as_built_def spec_expected_message_def)
qed

lemma set_join_path: "c \<in> set (join_path segs) \<Longrightarrow> c = CHR ''/'' \<or> (\<exists>s\<in>set segs. c \<in> set s)"
  by (induction segs rule: join_path.induct) auto

lemma join_path_nul_free:
  assumes "list_all short_segment segs"
  shows "NUL \<notin> set (join_path segs)"
proof
  assume "NUL \<in> set (join_path segs)"
  then have "NUL = CHR ''/'' \<or> (\<exists>s\<in>set segs. NUL \<in> set s)" by (rule set_join_path)
  moreover have "NUL \<noteq> CHR ''/''" by (simp add: NUL_def)
  ultimately obtain s where "s \<in> set segs" "NUL \<in> set s" by auto
  with assms show False by (auto simp: list_all_iff short_segment_def)
qed

lemma segments_of_joined_path:
  assumes "list_all short_segment segs" "length (join_path segs) \<le> 63"
  shows "strtok_all (strncpy (join_path segs) 63) ''/'' = segs"
proof -
  have "strncpy (join_path segs) 63 = join_path segs"
    using assms join_path_nul_free [OF assms(1)] by (simp add: strncpy_fits)
  moreover have "list_all (\<lambda>s. s \<noteq> [] \<and> CHR ''/'' \<notin> set s) segs"
    using assms(1) by (simp add: list_all_iff short_segment_def)
  ultimately show ?thesis by (simp add: strtok_all_join)
qed

lemma take_memcpy_0: "length xs \<le> length buf \<Longrightarrow> take (length xs) (memcpy buf 0 xs) = xs"
  by (simp add: memcpy_eq)

text \<open>
  The message for a path with at least one segment: the call succeeds when the message of
  the specification fits, the length reported is the length of that message and the
  buffer starts with it. The query and the host of the URI do not occur in the statement:
  whatever they are, the bytes are the same.
\<close>

lemma build_simple_layout:
  assumes segs: "list_all short_segment segs" and ne: "segs \<noteq> []"
    and path: "path uri = join_path segs" and plen: "length (path uri) \<le> 63"
    and pay: "p \<noteq> []" "NUL \<notin> set p"
    and fit: "length (spec_expected_message segs p) \<le> buffer_size"
    and buf: "buffer_size \<le> length buf"
  shows "snd (build_simple_coap_message uri (Some p) buf buffer_size) =
           Some (length (spec_expected_message segs p)) \<and>
         take (length (spec_expected_message segs p))
           (fst (build_simple_coap_message uri (Some p) buf buffer_size)) =
           spec_expected_message segs p"
proof -
  have toks: "segs = strtok_all (strncpy (path uri) 63) ''/''"
    using segments_of_joined_path [OF segs] plen by (simp add: path)
  have short: "list_all (\<lambda>t. length t \<le> 12) segs"
    using segs by (simp add: list_all_iff short_segment_def)
  have eq: "as_built segs (Some p) = spec_expected_message segs p"
    using ne pay by (rule as_built_expected)
  have "build_simple_coap_message uri (Some p) buf buffer_size =
          (memcpy buf 0 (as_built segs (Some p)), Some (length (as_built segs (Some p))))"
    using fit by (intro build_simple_ok [OF toks short]) (simp add: eq)
  then show ?thesis
    using take_memcpy_0 [of "spec_expected_message segs p" buf] fit buf by (simp add: eq)
qed

text \<open>
  The Uri-Path options byte by byte: the first option byte is \<open>16 * 11 + length\<close>
  (delta nibble 11), each later one \<open>16 * 0 + length\<close> (delta nibble 0), each followed by
  the bytes of its segment.
\<close>

lemma uri_path_options_bytes:
  assumes "list_all short_segment (s # ss)"
  shows "spec_encode_options 0 (uri_path_opts (s # ss)) =
         of_nat (16 * 11 + length s) # bytes_of s @
           concat (map (\<lambda>t. of_nat (16 * 0 + length t) # bytes_of t) ss)"
proof -
  have sub: "list_all short_segment ss \<Longrightarrow> spec_encode_options 11 (uri_path_opts ss) =
      concat (map (\<lambda>t. of_nat (16 * 0 + length t) # bytes_of t) ss)" for ss
    by (induction ss)
      (simp_all add: uri_path_opts_def short_segment_def option_header_short bytes_of_def)
  show ?thesis using assms sub [of ss]
    by (simp add: uri_path_opts_def short_segment_def option_header_short bytes_of_def)
qed

lemma build_simple_long_segment:
  assumes "\<not> list_all (\<lambda>t. length t \<le> 12) (strtok_all (strncpy (path uri) 63) ''/'')"
  shows "snd (build_simple_coap_message uri payload buf buffer_size) = None"
proof (cases "buffer_size < 4")
  case True
  then show ?thesis by (simp add: build_simple_coap_message_def)
next
  case False
  have pos: "0 < strlen (path uri)"
  proof (rule ccontr)
    assume "\<not> 0 < strlen (path uri)"
    then have "strtok_all (strncpy (path uri) 63) ''/'' = []"
      by (simp add: strncpy_empty strtok_all_empty)
    with assms show False by simp
  qed
  have "snd (uri_path_loop (buf[0 := 0x40, 0 + 1 := 0x02, 0 + 2 := 0x12, 0 + 3 := 0x34])
               buffer_size (0 + 4) True
               (fst (strtok (strncpy (path uri) 63) ''/''))
               (snd (strtok (strncpy (path uri) 63) ''/''))) = None"
    using assms strncpy_no_nul [of "path uri" 63] by (intro uri_path_loop_long) simp_all
  then show ?thesis
    unfolding build_simple_coap_message_def Let_def
    using False pos by (simp add: case_prod_beta)
qed

section \<open>Properties of transport and dispatch\<close>

subsection \<open>The UDP transport\<close>

text \<open>
  Claim C4, as stated, fails: the transport does not compare what \<^verbatim>\<open>sendto\<close> accepted
  with the length of the message. Here \<^verbatim>\<open>sendto\<close> accepts 3 of 9 bytes and
  \<^verbatim>\<open>send_coap_udp\<close> returns \<^verbatim>\<open>true\<close>.
\<close>

theorem short_send_reported_as_success:
  "sendto_result pf_short_send (take 9 msg9) < int 9 \<and>
   fst (send_coap_udp pf_short_send uri_collector msg9 9) = True"
  by (simp add: send_coap_udp_def pf_short_send_def pf_ok_def Let_def)

text \<open>
  Claim C4, amended. \<^verbatim>\<open>send_coap_udp\<close> reports success exactly when the socket was
  created, the host is a numeric address and \<^verbatim>\<open>sendto\<close> returned a value that is not
  negative; a negative result of \<^verbatim>\<open>sendto\<close> is always reported as a failure, a short
  send never is.
\<close>

theorem send_fails_iff_negative:
  "fst (send_coap_udp pf uri message message_len) \<longleftrightarrow>
     0 \<le> socket_result pf \<and> 0 < inet_pton_result pf (host uri) \<and>
     0 \<le> sendto_result pf (take message_len message)"
  by (auto simp: send_coap_udp_def Let_def)

theorem send_fails_iff_negative_witness:
  "\<not> fst (send_coap_udp pf_send_fails uri_collector msg9 9) \<and>
   fst (send_coap_udp pf_short_send uri_collector msg9 9) \<and>
   fst (send_coap_udp pf_ok uri_collector msg9 9)"
  using send_fails_iff_negative [of pf_send_fails uri_collector msg9 9]
    send_fails_iff_negative [of pf_short_send uri_collector msg9 9]
    send_fails_iff_negative [of pf_ok uri_collector msg9 9]
  by (simp add: pf_send_fails_def pf_short_send_def pf_ok_def)

text \<open>
  Claim C8. When \<^verbatim>\<open>socket\<close> succeeds, \<^verbatim>\<open>send_coap_udp\<close> closes the socket before
  it returns, on each exit: the host is not a numeric address (the only events are the
  creation and the close), the send fails, the send succeeds (in both the close follows the
  one \<^verbatim>\<open>sendto\<close>). No socket is left open.
\<close>

theorem socket_always_closed:
  assumes "0 \<le> socket_result pf"
  shows "open_sockets (snd (send_coap_udp pf uri message message_len)) [] = [] \<and>
         last (snd (send_coap_udp pf uri message message_len)) = SocketClose (socket_result pf) \<and>
         (inet_pton_result pf (host uri) \<le> 0 \<longrightarrow>
            send_coap_udp pf uri message message_len =
              (False, [SocketCreate (socket_result pf), SocketClose (socket_result pf)])) \<and>
         (0 < inet_pton_result pf (host uri) \<longrightarrow>
            send_coap_udp pf uri message message_len =
              (0 \<le> sendto_result pf (take message_len message),
               [SocketCreate (socket_result pf),
                SendTo (socket_result pf) (word_of_int (port uri)) (take message_len message),
                SocketClose (socket_result pf)]))"
  using assms by (auto simp: send_coap_udp_def Let_def)

theorem socket_always_closed_witness:
  "0 \<le> socket_result pf_ok \<and>
   send_coap_udp pf_bad_address uri_collector msg9 9 = (False, [SocketCreate 3, SocketClose 3]) \<and>
   send_coap_udp pf_send_fails uri_collector msg9 9 =
     (False, [SocketCreate 3, SendTo 3 5683 msg9, SocketClose 3]) \<and>
   send_coap_udp pf_ok uri_collector msg9 9 =
     (True, [SocketCreate 3, SendTo 3 5683 msg9, SocketClose 3]) \<and>
   open_sockets (snd (send_coap_udp pf_bad_address uri_collector msg9 9)) [] = [] \<and>
   open_sockets (snd (send_coap_udp pf_send_fails uri_collector msg9 9)) [] = [] \<and>
   open_sockets (snd (send_coap_udp pf_ok uri_collector msg9 9)) [] = []"
proof -
  have a: "0 \<le> socket_result pf_bad_address" "0 \<le> socket_result pf_send_fails"
    "0 \<le> socket_result pf_ok"
    by (simp_all add: pf_bad_address_def pf_send_fails_def pf_ok_def)
  show ?thesis
    using socket_always_closed [OF a(1), of uri_collector msg9 9]
      socket_always_closed [OF a(2), of uri_collector msg9 9]
      socket_always_closed [OF a(3), of uri_collector msg9 9]
    by (simp add: pf_bad_address_def pf_send_fails_def pf_ok_def uri_collector_def msg9_def)
qed

subsection \<open>Waiting for the network\<close>

lemma wait_for_wifi_never:
  assumes never: "\<forall>t. \<not> ap_info_ok pf t"
  shows "k \<le> n \<Longrightarrow> wait_for_wifi_from pf (100 * int n) (100 * int k) = (False, polling k n)"
proof (induction "n - k" arbitrary: k)
  case 0
  then have "k = n" by simp
  then show ?case
    by (subst wait_for_wifi_from.simps) (simp add: polling_def)
next
  case (Suc d)
  then have lt: "k < n" and d: "d = n - Suc k" and le: "Suc k \<le> n" by simp_all
  have IH: "wait_for_wifi_from pf (100 * int n) (100 * int (Suc k)) = (False, polling (Suc k) n)"
    using Suc.hyps(1) [OF d le] .
  have nx: "100 * int k + 100 = 100 * int (Suc k)" by simp
  have pl: "polling k n = WifiQuery (100 * k) False # TaskDelay 100 # polling (Suc k) n"
    using lt by (simp add: polling_def upt_conv_Cons)
  have nat: "nat (100 * int k) = 100 * k" by (simp add: nat_mult_distrib)
  show ?case
    using lt never
    by (subst wait_for_wifi_from.simps) (simp add: nx IH pl nat del: of_nat_Suc)
qed

lemma sum_polling_delay:
  "k \<le> n \<Longrightarrow> sum_list (map (\<lambda>e. case e of TaskDelay ms \<Rightarrow> ms | _ \<Rightarrow> 0) (polling k n)) = 100 * (n - k)"
  by (induction "n - k" arbitrary: k) (simp_all add: polling_def upt_conv_Cons)

lemma polling_no_send_activity: "filter send_activity (polling k n) = []"
  by (simp add: polling_def filter_concat comp_def)

text \<open>
  Claim C7. When the access point is never reported, \<^verbatim>\<open>wait_for_wifi(10000)\<close> returns
  \<^verbatim>\<open>false\<close> after 100 queries, each followed by a delay of 100 ms (10 s of delay in
  all), and the task ends as \<open>NetworkUnavailable\<close> with nothing but these queries, the
  delays and the deletion of the task: the parser, the encoder and the transport are not
  called and no socket is opened.
\<close>

theorem no_wifi_no_send:
  assumes "\<forall>t. \<not> ap_info_ok pf t"
  shows "wait_for_wifi pf 10000 = (False, polling 0 100) \<and>
         total_delay (polling 0 100) = 10000 \<and>
         coap_send_task pf uri payload = (NetworkUnavailable, polling 0 100 @ [TaskDelete]) \<and>
         filter send_activity (snd (coap_send_task pf uri payload)) = []"
proof -
  have w: "wait_for_wifi pf 10000 = (False, polling 0 100)"
    using wait_for_wifi_never [OF assms, of 0 100] by (simp add: wait_for_wifi_def)
  have d: "total_delay (polling 0 100) = 10000"
    using sum_polling_delay [of 0 100] by (simp add: total_delay_def)
  have t: "coap_send_task pf uri payload = (NetworkUnavailable, polling 0 100 @ [TaskDelete])"
    by (simp add: coap_send_task_def w)
  show ?thesis using w d t by (simp add: polling_no_send_activity)
qed

theorem no_wifi_no_send_witness:
  "(\<forall>t. \<not> ap_info_ok pf_no_wifi t) \<and>
   fst (wait_for_wifi pf_no_wifi 10000) = False \<and>
   fst (coap_send_task pf_no_wifi (Some ''coap://192.168.1.52:5683/sensor/send-data'') (Some ''{}''))
     = NetworkUnavailable \<and>
   filter send_activity
     (snd (coap_send_task pf_no_wifi (Some ''coap://192.168.1.52:5683/sensor/send-data'') (Some ''{}'')))
     = []"
proof -
  have n: "\<forall>t. \<not> ap_info_ok pf_no_wifi t" by (simp add: pf_no_wifi_def pf_ok_def)
  show ?thesis
    using no_wifi_no_send [OF n, of "Some ''coap://192.168.1.52:5683/sensor/send-data''" "Some ''{}''"] n
    by (simp add: polling_no_send_activity)
qed

subsection \<open>The encoder without segments and with long segments\<close>

lemma build_simple_no_path:
  "build_simple_coap_message uri_no_path (Some ''{}'') (replicate 16 0) 16 =
     ([0x40, 0x02, 0x12, 0x34, 0x11, 0x32, 0xFF, 0x7B, 0x7D, 0, 0, 0, 0, 0, 0, 0], Some 9)"
  by code_simp

text \<open>
  Claim C1 says that the message is the header, one Uri-Path option per segment, the
  Content-Format option with the JSON code, the marker \<open>0xFF\<close> and the payload. For a path
  with at least one segment this is \<open>build_simple_layout\<close> above. For a path without
  segments the code still writes \<open>0x11\<close> (delta 1, which a receiver reads as option
  number 1), where the Content-Format option after no other option is \<open>0xC1\<close>
  (delta 12): the message built differs from the one described in its fifth byte.
\<close>

theorem build_simple_empty_path_mismatch:
  "build_simple_coap_message uri_no_path (Some ''{}'') (replicate 16 0) 16 =
     ([0x40, 0x02, 0x12, 0x34, 0x11, 0x32, 0xFF, 0x7B, 0x7D, 0, 0, 0, 0, 0, 0, 0], Some 9) \<and>
   spec_expected_message [] ''{}'' = [0x40, 0x02, 0x12, 0x34, 0xC1, 0x32, 0xFF, 0x7B, 0x7D]"
  by (simp add: build_simple_no_path)
    (simp add: spec_expected_message_def spec_message_options_def simple_header_def
      spec_option_header_def spec_nibble_def spec_ext_field_def bytes_of_def)

text \<open>
  Claim C5 says that the delta of the Content-Format option is relative to the last option
  written, so 12 when the path has no segment. The code writes the constant \<open>0x11\<close>:
  for a path without segments the delta a receiver reads at the first option is 1, while
  the encoding of option 12 after no other option carries 12.
\<close>

theorem content_format_delta_without_path:
  "spec_decode_option_delta
     (drop 4 (fst (build_simple_coap_message uri_no_path (Some ''{}'') (replicate 16 0) 16)))
     = Some 1 \<and>
   spec_decode_option_delta (spec_encode_options 0 [(12, [50])]) = Some 12"
  by (simp add: build_simple_no_path)
    (simp add: spec_decode_option_delta_def spec_option_header_def spec_nibble_def spec_ext_field_def)

text \<open>
  Claim C6. When one of the segments of the path (the tokens \<^verbatim>\<open>strtok\<close> returns for
  the copy of the path) is longer than 12 bytes, \<^verbatim>\<open>build_simple_coap_message\<close> returns
  \<^verbatim>\<open>false\<close> whatever the payload, the buffer and its size are, and
  \<^verbatim>\<open>coap_send_sensor_data\<close> ends after the encoder without calling the transport.
\<close>

theorem long_segment_rejected:
  assumes "t \<in> set (strtok_all (strncpy (path uri) 63) ''/'')" and "12 < length t"
  shows "snd (build_simple_coap_message uri payload buf buffer_size) = None \<and>
         (parse_coap_uri (Some u) = ParseOk uri \<longrightarrow>
            coap_send_sensor_data pf (Some u) (Some p) = (EncodeError, [ParseUri, BuildMessage]))"
proof -
  have long: "\<not> list_all (\<lambda>t. length t \<le> 12) (strtok_all (strncpy (path uri) 63) ''/'')"
    using assms by (auto simp: list_all_iff intro!: bexI [of _ t])
  have none: "snd (build_simple_coap_message uri payload buf buffer_size) = None"
    for payload buf buffer_size
    by (rule build_simple_long_segment [OF long])
  obtain b where "build_simple_coap_message uri (Some p) (coap_buffer pf) 512 = (b, None)"
    using none [of "Some p" "coap_buffer pf" 512]
    by (cases "build_simple_coap_message uri (Some p) (coap_buffer pf) 512") simp
  then show ?thesis
    using none by (simp add: coap_send_sensor_data_def)
qed

theorem long_segment_rejected_witness:
  "''abcdefghijklm'' \<in> set (strtok_all (strncpy (path uri_long_segment) 63) ''/'') \<and>
   12 < length ''abcdefghijklm'' \<and>
   parse_coap_uri (Some ''coap://10.0.0.5/sensor/abcdefghijklm'') = ParseOk uri_long_segment \<and>
   snd (build_simple_coap_message uri_long_segment (Some ''{}'') (replicate 512 0) 512) = None \<and>
   coap_send_sensor_data pf_ok (Some ''coap://10.0.0.5/sensor/abcdefghijklm'') (Some ''{}'') =
     (EncodeError, [ParseUri, BuildMessage])"
proof -
  have toks: "strtok_all (strncpy (path uri_long_segment) 63) ''/'' = [''sensor'', ''abcdefghijklm'']"
    by code_simp
  have t: "''abcdefghijklm'' \<in> set (strtok_all (strncpy (path uri_long_segment) 63) ''/'')"
    by (simp add: toks)
  have l: "12 < length ''abcdefghijklm''" by simp
  have p: "parse_coap_uri (Some ''coap://10.0.0.5/sensor/abcdefghijklm'') = ParseOk uri_long_segment"
    by code_simp
  show ?thesis
    using long_segment_rejected [OF t l, of "Some ''{}''" "replicate 512 0" 512
        "''coap://10.0.0.5/sensor/abcdefghijklm''" pf_ok "''{}''"] p
    by (simp add: toks)
qed

section \<open>Properties of the URI parser\<close>

lemma scan_literal_prefix: "scan_literal lit (lit @ r) = Some r"
  by (simp add: scan_literal_def)

lemma scan_literal_mismatch:
  "c \<noteq> d \<Longrightarrow> scan_literal [c] (d # r) = None"
  by (simp add: scan_literal_def)

lemma takeWhile_take_stop:
  "r = [] \<or> \<not> ok (hd r) \<Longrightarrow> takeWhile ok (take k r) = []"
  by (cases r; cases k) auto

lemma scan_set_token:
  assumes "tok \<noteq> []" "list_all ok tok" "length tok \<le> width" "r = [] \<or> \<not> ok (hd r)"
  shows "scan_set ok width (tok @ r) = Some (tok, r)"
proof -
  have "take width (tok @ r) = tok @ take (width - length tok) r"
    using assms(3) by simp
  moreover have "takeWhile ok (tok @ take (width - length tok) r) =
      tok @ takeWhile ok (take (width - length tok) r)"
    using assms(2) by (subst takeWhile_append2) (auto simp: list_all_iff)
  moreover have "takeWhile ok (take (width - length tok) r) = []"
    using assms(4) by (rule takeWhile_take_stop)
  ultimately have "takeWhile ok (take width (tok @ r)) = tok" by simp
  then show ?thesis using assms(1) by (simp add: scan_set_def Let_def)
qed

lemma dropWhile_none: "s \<noteq> [] \<Longrightarrow> \<not> P (hd s) \<Longrightarrow> dropWhile P s = s"
  by (cases s) auto

lemma scan_str_token:
  assumes "tok \<noteq> []" "list_all (\<lambda>c. \<not> isspace c) tok" "length tok \<le> width"
  shows "scan_str width tok = Some (tok, [])"
proof -
  have "\<not> isspace (hd tok)" using assms(1,2) by (cases tok) auto
  then have "dropWhile isspace tok = tok" using assms(1) by (simp add: dropWhile_none)
  moreover have "scan_set (\<lambda>c. \<not> isspace c) width (tok @ []) = Some (tok, [])"
    using assms by (intro scan_set_token) simp_all
  ultimately show ?thesis by (simp add: scan_str_def)
qed

lemma digit_val_nonneg: "isdigit c \<Longrightarrow> 0 \<le> digit_val c"
  by (auto simp: isdigit_def digit_val_def)

lemma foldl_decimal_nonneg:
  "list_all isdigit ds \<Longrightarrow> 0 \<le> a \<Longrightarrow> 0 \<le> foldl (\<lambda>a c. 10 * a + digit_val c) a ds"
proof (induction ds arbitrary: a)
  case Nil
  then show ?case by simp
next
  case (Cons d ds)
  then have "0 \<le> 10 * a + digit_val d" using digit_val_nonneg [of d] by simp
  with Cons show ?case by simp
qed

lemma decimal_nonneg: "list_all isdigit ds \<Longrightarrow> 0 \<le> decimal ds"
  by (simp add: decimal_def foldl_decimal_nonneg)

lemma digit_not_space: "isdigit c \<Longrightarrow> \<not> isspace c"
  by (auto simp: isdigit_def isspace_def)

lemma digit_not_sign: "isdigit c \<Longrightarrow> c \<noteq> CHR ''-'' \<and> c \<noteq> CHR ''+''"
  by (auto simp: isdigit_def)

lemma scan_int_digits:
  assumes "ds \<noteq> []" "list_all isdigit ds" "decimal ds \<le> 2147483647" "r = [] \<or> \<not> isdigit (hd r)"
  shows "scan_int (ds @ r) = Some (decimal ds, r)"
proof -
  from assms(1) obtain d ds' where ds: "ds = d # ds'" by (cases ds) auto
  with assms(2) have d: "isdigit d" by simp
  have sp: "dropWhile isspace (ds @ r) = ds @ r"
    using digit_not_space [OF d] by (simp add: ds)
  have hd: "hd (ds @ r) = d" by (simp add: ds)
  have sign: "\<not> (hd (ds @ r) = CHR ''-'' \<or> hd (ds @ r) = CHR ''+'')"
    using digit_not_sign [OF d] by (simp add: hd)
  have tw: "takeWhile isdigit (ds @ r) = ds"
  proof -
    have "takeWhile isdigit (ds @ r) = ds @ takeWhile isdigit r"
      using assms(2) by (subst takeWhile_append2) (auto simp: list_all_iff)
    moreover have "takeWhile isdigit r = []" using assms(4) by (cases r) auto
    ultimately show ?thesis by simp
  qed
  have cl: "clamp_int (decimal ds) = decimal ds"
    using assms(3) decimal_nonneg [OF assms(2)] by (simp add: clamp_int_def)
  show ?thesis
    unfolding scan_int_def Let_def sp
    using sign assms(1) by (simp add: tw cl)
qed

lemma join_path_chars:
  "list_all (list_all P) segs \<Longrightarrow> P (CHR ''/'') \<Longrightarrow> list_all P (join_path segs)"
  by (induction segs rule: join_path.induct) simp_all

lemma join_path_nonempty: "segs \<noteq> [] \<Longrightarrow> list_all (\<lambda>s. s \<noteq> []) segs \<Longrightarrow> join_path segs \<noteq> []"
  by (induction segs rule: join_path.induct) simp_all

lemma segment_text_all:
  "list_all segment_text segs \<Longrightarrow>
   list_all (list_all (\<lambda>c. c \<noteq> CHR ''?'' \<and> \<not> isspace c \<and> c \<noteq> NUL)) segs"
  by (induction segs) (auto simp: segment_text_def list_all_iff)

lemma slash_plain: "CHR ''/'' \<noteq> CHR ''?'' \<and> \<not> isspace (CHR ''/'') \<and> CHR ''/'' \<noteq> NUL"
  by (simp add: isspace_def NUL_def)

lemma path_chars:
  assumes "list_all segment_text segs"
  shows "list_all (\<lambda>c. c \<noteq> CHR ''?'' \<and> \<not> isspace c \<and> c \<noteq> NUL) (join_path segs)"
  using join_path_chars [OF segment_text_all [OF assms]] slash_plain by simp

lemma path_nonempty:
  assumes "segs \<noteq> []" "list_all segment_text segs"
  shows "join_path segs \<noteq> []"
  using assms by (intro join_path_nonempty) (auto simp: list_all_iff segment_text_def)

lemma question_plain: "\<not> isspace (CHR ''?'') \<and> CHR ''?'' \<noteq> NUL"
  by (simp add: isspace_def NUL_def)

lemma path_and_query_chars:
  assumes "list_all segment_text segs" "case q of None \<Rightarrow> True | Some t \<Rightarrow> query_text t"
  shows "list_all (\<lambda>c. \<not> isspace c \<and> c \<noteq> NUL) (path_and_query_text segs q)"
proof -
  have "list_all (\<lambda>c. \<not> isspace c \<and> c \<noteq> NUL) (join_path segs)"
    using path_chars [OF assms(1)] by (auto simp: list_all_iff)
  then show ?thesis using assms(2) question_plain
    by (cases q) (simp_all add: path_and_query_text_def query_text_def)
qed

lemma path_and_query_length:
  assumes "length (join_path segs) \<le> 63" "case q of None \<Rightarrow> True | Some t \<Rightarrow> query_text t"
  shows "length (path_and_query_text segs q) \<le> 127"
  using assms by (cases q) (simp_all add: path_and_query_text_def query_text_def)

lemma scan_path_and_query:
  assumes "segs \<noteq> []" "list_all segment_text segs" "length (join_path segs) \<le> 63"
    "case q of None \<Rightarrow> True | Some t \<Rightarrow> query_text t"
  shows "scan_str 127 (path_and_query_text segs q) = Some (path_and_query_text segs q, [])"
proof (rule scan_str_token)
  show "path_and_query_text segs q \<noteq> []"
    using path_nonempty [OF assms(1,2)] by (simp add: path_and_query_text_def)
  show "list_all (\<lambda>c. \<not> isspace c) (path_and_query_text segs q)"
    using path_and_query_chars [OF assms(2,4)] by (auto simp: list_all_iff)
  show "length (path_and_query_text segs q) \<le> 127"
    using assms(3,4) by (rule path_and_query_length)
qed

lemma sscanf_port_form_with_port:
  assumes h: "host_text h" and p: "port_text ds"
    and pq: "scan_str 127 pq = Some (pq, [])"
  shows "sscanf_port_form (''coap://'' @ h @ CHR '':'' # ds @ CHR ''/'' # pq) vars =
           (3, h, decimal ds, pq)"
proof -
  obtain h0 p0 pq0 where vars: "vars = (h0, p0, pq0)" by (cases vars) auto
  have s1: "scan_set (\<lambda>c. c \<notin> set '':/'') 63 (h @ CHR '':'' # ds @ CHR ''/'' # pq) =
            Some (h, CHR '':'' # ds @ CHR ''/'' # pq)"
    using h by (intro scan_set_token) (auto simp: host_text_def list_all_iff)
  have s2: "scan_literal '':'' (CHR '':'' # ds @ CHR ''/'' # pq) = Some (ds @ CHR ''/'' # pq)"
    using scan_literal_prefix [of "'':''" "ds @ CHR ''/'' # pq"] by simp
  have s3: "scan_int (ds @ CHR ''/'' # pq) = Some (decimal ds, CHR ''/'' # pq)"
    using p by (intro scan_int_digits) (auto simp: port_text_def isdigit_def)
  have s4: "scan_literal ''/'' (CHR ''/'' # pq) = Some pq"
    using scan_literal_prefix [of "''/''" pq] by simp
  have s0: "scan_literal ''coap://'' (''coap://'' @ h @ CHR '':'' # ds @ CHR ''/'' # pq) =
            Some (h @ CHR '':'' # ds @ CHR ''/'' # pq)"
    by (rule scan_literal_prefix)
  show ?thesis
    unfolding sscanf_port_form_def vars by (simp only: s0 s1 s2 s3 s4 pq option.case prod.case)
qed

lemma sscanf_port_form_without_port:
  assumes h: "host_text h"
  shows "sscanf_port_form (''coap://'' @ h @ CHR ''/'' # pq) (h0, p0, pq0) = (1, h, p0, pq0)"
proof -
  have s0: "scan_literal ''coap://'' (''coap://'' @ h @ CHR ''/'' # pq) = Some (h @ CHR ''/'' # pq)"
    by (rule scan_literal_prefix)
  have s1: "scan_set (\<lambda>c. c \<notin> set '':/'') 63 (h @ CHR ''/'' # pq) = Some (h, CHR ''/'' # pq)"
    using h by (intro scan_set_token) (auto simp: host_text_def list_all_iff)
  have s2: "scan_literal '':'' (CHR ''/'' # pq) = None"
    by (rule scan_literal_mismatch) simp
  show ?thesis
    unfolding sscanf_port_form_def by (simp only: s0 s1 s2 option.case prod.case)
qed

lemma sscanf_plain_form_ok:
  assumes h: "host_text h" and pq: "scan_str 127 pq = Some (pq, [])"
  shows "sscanf_plain_form (''coap://'' @ h @ CHR ''/'' # pq) vars = (2, h, pq)"
proof -
  obtain h0 pq0 where vars: "vars = (h0, pq0)" by (cases vars) auto
  have s0: "scan_literal ''coap://'' (''coap://'' @ h @ CHR ''/'' # pq) = Some (h @ CHR ''/'' # pq)"
    by (rule scan_literal_prefix)
  have s1: "scan_set (\<lambda>c. c \<notin> set ''/'') 63 (h @ CHR ''/'' # pq) = Some (h, CHR ''/'' # pq)"
    using h by (intro scan_set_token) (auto simp: host_text_def list_all_iff)
  have s2: "scan_literal ''/'' (CHR ''/'' # pq) = Some pq"
    using scan_literal_prefix [of "''/''" pq] by simp
  show ?thesis
    unfolding sscanf_plain_form_def vars by (simp only: s0 s1 s2 pq option.case prod.case)
qed

lemma cstr_all_nul_free: "list_all (\<lambda>c. c \<noteq> NUL) s \<Longrightarrow> cstr s = s"
  by (auto simp: cstr_def takeWhile_eq_all_conv list_all_iff)

lemma strncpy_all_fits: "list_all (\<lambda>c. c \<noteq> NUL) s \<Longrightarrow> length s \<le> n \<Longrightarrow> strncpy s n = s"
  by (simp add: strncpy_def cstr_all_nul_free)

lemma strchr_absent: "list_all (\<lambda>x. x \<noteq> c) s \<Longrightarrow> strchr s c = None"
  by (auto simp: strchr_def list_all_iff)

lemma strchr_first: "list_all (\<lambda>x. x \<noteq> c) s \<Longrightarrow> strchr (s @ c # t) c = Some (length s)"
proof -
  assume a: "list_all (\<lambda>x. x \<noteq> c) s"
  have "takeWhile (\<lambda>x. x \<noteq> c) (s @ c # t) = s"
    using a by (subst takeWhile_append2) (auto simp: list_all_iff)
  then show ?thesis by (simp add: strchr_def)
qed

lemma split_path_query_text:
  assumes segs: "list_all segment_text segs" and len: "length (join_path segs) \<le> 63"
    and q: "case q of None \<Rightarrow> True | Some t \<Rightarrow> query_text t"
  shows "split_path_query h p (path_and_query_text segs q) =
           ParseOk \<lparr>host = h, port = p, path = join_path segs,
                     query = (case q of None \<Rightarrow> [] | Some t \<Rightarrow> t)\<rparr>"
proof -
  have chars: "list_all (\<lambda>c. c \<noteq> CHR ''?'' \<and> \<not> isspace c \<and> c \<noteq> NUL) (join_path segs)"
    using segs by (rule path_chars)
  have noq: "list_all (\<lambda>x. x \<noteq> CHR ''?'') (join_path segs)"
    using chars by (auto simp: list_all_iff)
  have nonul: "list_all (\<lambda>c. c \<noteq> NUL) (join_path segs)"
    using chars by (auto simp: list_all_iff)
  show ?thesis
  proof (cases q)
    case None
    then show ?thesis
      using strchr_absent [OF noq] strncpy_all_fits [OF nonul len]
      by (simp add: split_path_query_def path_and_query_text_def)
  next
    case (Some t)
    with q have t: "list_all (\<lambda>c. c \<noteq> NUL) t" "length t \<le> 63"
      by (auto simp: query_text_def list_all_iff)
    show ?thesis
      using strchr_first [OF noq, of t] strncpy_all_fits [OF t] len
      by (simp add: split_path_query_def path_and_query_text_def Some)
  qed
qed

lemma digit_not_nul: "isdigit c \<Longrightarrow> c \<noteq> NUL"
  by (auto simp: isdigit_def NUL_def)

lemma digits_nul_free: "list_all isdigit ds \<Longrightarrow> list_all (\<lambda>c. c \<noteq> NUL) ds"
  by (induction ds) (simp_all add: digit_not_nul)

lemma endpoint_string_eq:
  "endpoint_string h p segs q =
     ''coap://'' @ h @ (case p of None \<Rightarrow> [] | Some ds \<Rightarrow> CHR '':'' # ds) @
     CHR ''/'' # path_and_query_text segs q"
  by (simp add: endpoint_string_def path_and_query_text_def)

lemma endpoint_string_nul_free:
  assumes "host_text h" "case p of None \<Rightarrow> True | Some ds \<Rightarrow> port_text ds"
    "list_all segment_text segs" "case q of None \<Rightarrow> True | Some t \<Rightarrow> query_text t"
  shows "list_all (\<lambda>c. c \<noteq> NUL) (endpoint_string h p segs q)"
proof -
  have a: "list_all (\<lambda>c. c \<noteq> NUL) ''coap://''" by (simp add: NUL_def)
  have b: "list_all (\<lambda>c. c \<noteq> NUL) h" using assms(1) by (auto simp: host_text_def list_all_iff)
  have c: "list_all (\<lambda>c. c \<noteq> NUL) (case p of None \<Rightarrow> [] | Some ds \<Rightarrow> CHR '':'' # ds)"
  proof (cases p)
    case None
    then show ?thesis by simp
  next
    case (Some ds)
    with assms(2) have "list_all isdigit ds" by (simp add: port_text_def)
    then have "list_all (\<lambda>c. c \<noteq> NUL) ds" by (rule digits_nul_free)
    then show ?thesis by (simp add: Some NUL_def)
  qed
  have d: "list_all (\<lambda>c. c \<noteq> NUL) (path_and_query_text segs q)"
    using path_and_query_chars [OF assms(3,4)] by (auto simp: list_all_iff)
  have e: "list_all (\<lambda>c. c \<noteq> NUL) [CHR ''/'']" by (simp add: NUL_def)
  have "list_all (\<lambda>c. c \<noteq> NUL)
          (''coap://'' @ h @ (case p of None \<Rightarrow> [] | Some ds \<Rightarrow> CHR '':'' # ds) @
           [CHR ''/''] @ path_and_query_text segs q)"
    unfolding list_all_append using a b c d e by blast
  then show ?thesis unfolding endpoint_string_eq by simp
qed

lemma parse_endpoint:
  assumes h: "host_text h" and p: "case p of None \<Rightarrow> True | Some ds \<Rightarrow> port_text ds"
    and ne: "segs \<noteq> []" and segs: "list_all segment_text segs"
    and len: "length (join_path segs) \<le> 63"
    and q: "case q of None \<Rightarrow> True | Some t \<Rightarrow> query_text t"
  shows "parse_coap_uri (Some (endpoint_string h p segs q)) =
           ParseOk \<lparr>host = h, port = (case p of None \<Rightarrow> 5683 | Some ds \<Rightarrow> decimal ds),
                     path = join_path segs,
                     query = (case q of None \<Rightarrow> [] | Some t \<Rightarrow> t)\<rparr>"
proof -
  define pq where "pq = path_and_query_text segs q"
  have c: "cstr (endpoint_string h p segs q) = endpoint_string h p segs q"
    using endpoint_string_nul_free [OF h p segs q] by (rule cstr_all_nul_free)
  have sc: "scan_str 127 pq = Some (pq, [])"
    unfolding pq_def using ne segs len q by (rule scan_path_and_query)
  have sp: "split_path_query h port pq =
           ParseOk \<lparr>host = h, port = port, path = join_path segs,
                     query = (case q of None \<Rightarrow> [] | Some t \<Rightarrow> t)\<rparr>" for port
    unfolding pq_def using segs len q by (rule split_path_query_text)
  show ?thesis
  proof (cases p)
    case None
    have e: "endpoint_string h p segs q = ''coap://'' @ h @ CHR ''/'' # pq"
      by (simp add: endpoint_string_eq None pq_def)
    have f1: "sscanf_port_form (''coap://'' @ h @ CHR ''/'' # pq) ([], 5683, []) = (1, h, 5683, [])"
      using h by (rule sscanf_port_form_without_port)
    have f2: "sscanf_plain_form (''coap://'' @ h @ CHR ''/'' # pq) (h, []) = (2, h, pq)"
      using h sc by (rule sscanf_plain_form_ok)
    have c': "cstr (''coap://'' @ h @ CHR ''/'' # pq) = ''coap://'' @ h @ CHR ''/'' # pq"
      using c unfolding e .
    have "parse_coap_uri (Some (''coap://'' @ h @ CHR ''/'' # pq)) = split_path_query h 5683 pq"
      unfolding parse_coap_uri_def
      by (simp only: option.case c' f1 f2 prod.case) simp
    then show ?thesis unfolding e by (simp only: sp None option.case)
  next
    case (Some ds)
    with p have pt: "port_text ds" by simp
    have e: "endpoint_string h p segs q = ''coap://'' @ h @ CHR '':'' # ds @ CHR ''/'' # pq"
      by (simp add: endpoint_string_eq Some pq_def)
    have f1: "sscanf_port_form (''coap://'' @ h @ CHR '':'' # ds @ CHR ''/'' # pq) ([], 5683, []) =
              (3, h, decimal ds, pq)"
      using h pt sc by (rule sscanf_port_form_with_port)
    have c': "cstr (''coap://'' @ h @ CHR '':'' # ds @ CHR ''/'' # pq) =
              ''coap://'' @ h @ CHR '':'' # ds @ CHR ''/'' # pq"
      using c unfolding e .
    have "parse_coap_uri (Some (''coap://'' @ h @ CHR '':'' # ds @ CHR ''/'' # pq)) =
          split_path_query h (decimal ds) pq"
      unfolding parse_coap_uri_def
      by (simp only: option.case c' f1 prod.case) simp
    then show ?thesis unfolding e by (simp only: sp Some option.case)
  qed
qed

text \<open>
  Claim C3. For an endpoint string \<open>coap://h[:p]/seg1/.../segN[?q]\<close> whose host has 1 to
  63 bytes without \<open>:\<close> and \<open>/\<close>, whose port, when present, is a decimal numeral
  that fits an \<^verbatim>\<open>int\<close>, whose segments (at least one) are not empty and free of
  \<open>/\<close>, \<open>?\<close> and white space, whose path has at most 63 bytes and whose query, when
  present, has at most 63 bytes without white space, \<^verbatim>\<open>parse_coap_uri\<close> succeeds with the
  host \<open>h\<close>, the port \<open>p\<close> or 5683, a path that the encoder splits into exactly the
  segments, and the query \<open>q\<close> or the empty string.
\<close>

theorem parse_recovers_components:
  assumes "host_text h" and "case p of None \<Rightarrow> True | Some ds \<Rightarrow> port_text ds"
    and "segs \<noteq> []" and "list_all segment_text segs" and "length (join_path segs) \<le> 63"
    and "case q of None \<Rightarrow> True | Some t \<Rightarrow> query_text t"
  shows "parse_coap_uri (Some (endpoint_string h p segs q)) =
           ParseOk \<lparr>host = h, port = (case p of None \<Rightarrow> 5683 | Some ds \<Rightarrow> decimal ds),
                     path = join_path segs,
                     query = (case q of None \<Rightarrow> [] | Some t \<Rightarrow> t)\<rparr> \<and>
         strtok_all (strncpy (join_path segs) 63) ''/'' = segs"
proof -
  have nul: "list_all (\<lambda>c. c \<noteq> NUL) (join_path segs)"
    using path_chars [OF assms(4)] by (auto simp: list_all_iff)
  have "strncpy (join_path segs) 63 = join_path segs"
    using nul assms(5) by (rule strncpy_all_fits)
  moreover have "list_all (\<lambda>s. s \<noteq> [] \<and> CHR ''/'' \<notin> set s) segs"
    using assms(4) by (auto simp: list_all_iff segment_text_def)
  ultimately have "strtok_all (strncpy (join_path segs) 63) ''/'' = segs"
    by (simp add: strtok_all_join)
  then show ?thesis using parse_endpoint [OF assms] by simp
qed

theorem parse_recovers_components_witness:
  "parse_coap_uri (Some ''coap://192.168.1.52:5683/sensor/send-data?x=1'') =
     ParseOk \<lparr>host = ''192.168.1.52'', port = 5683, path = ''sensor/send-data'', query = ''x=1''\<rparr> \<and>
   strtok_all (strncpy ''sensor/send-data'' 63) ''/'' = [''sensor'', ''send-data''] \<and>
   parse_coap_uri (Some ''coap://10.0.0.5/a'') =
     ParseOk \<lparr>host = ''10.0.0.5'', port = 5683, path = ''a'', query = ''''\<rparr>"
proof -
  have h1: "host_text ''192.168.1.52''" and h2: "host_text ''10.0.0.5''" by code_simp+
  have p1: "case Some ''5683'' of None \<Rightarrow> True | Some ds \<Rightarrow> port_text ds" by code_simp
  have p2: "case (None :: string option) of None \<Rightarrow> True | Some ds \<Rightarrow> port_text ds" by simp
  have s1: "list_all segment_text [''sensor'', ''send-data'']"
    and s2: "list_all segment_text [''a'']" by code_simp+
  have n1: "[''sensor'', ''send-data''] \<noteq> []" and n2: "[''a''] \<noteq> []" by simp_all
  have l1: "length (join_path [''sensor'', ''send-data'']) \<le> 63"
    and l2: "length (join_path [''a'']) \<le> 63" by simp_all
  have q1: "case Some ''x=1'' of None \<Rightarrow> True | Some t \<Rightarrow> query_text t" by code_simp
  have q2: "case (None :: string option) of None \<Rightarrow> True | Some t \<Rightarrow> query_text t" by simp
  have d: "decimal ''5683'' = 5683" by code_simp
  show ?thesis
    using parse_recovers_components [OF h1 p1 n1 s1 l1 q1]
      parse_recovers_components [OF h2 p2 n2 s2 l2 q2]
    by (simp add: endpoint_string_def d)
qed

text \<open>
  Claim C9, as stated, fails: \<^verbatim>\<open>%d\<close> stores any \<^verbatim>\<open>int\<close> and nothing checks it. The
  explicit port 70000 is accepted as it is.
\<close>

theorem port_out_of_range_accepted:
  "parse_coap_uri (Some ''coap://10.0.0.5:70000/a'') =
     ParseOk \<lparr>host = ''10.0.0.5'', port = 70000, path = ''a'', query = ''''\<rparr> \<and>
   \<not> (70000 :: int) \<le> 65535"
  by code_simp

text \<open>
  Claim C9, amended. \<^verbatim>\<open>parse_coap_uri\<close> does not check the range of an explicit port:
  the port of the result is the value of the decimal numeral, whatever it is up to the
  largest \<^verbatim>\<open>int\<close>. Only \<^verbatim>\<open>htons\<close> in \<^verbatim>\<open>send_coap_udp\<close> reduces it, to its value
  modulo 65536, which is the port the datagram is sent to.
\<close>

theorem explicit_port_unchecked:
  assumes "host_text h" and "port_text ds"
    and "segs \<noteq> []" and "list_all segment_text segs" and "length (join_path segs) \<le> 63"
    and "case q of None \<Rightarrow> True | Some t \<Rightarrow> query_text t"
    and "uri = \<lparr>host = h, port = decimal ds, path = join_path segs,
                 query = (case q of None \<Rightarrow> [] | Some t \<Rightarrow> t)\<rparr>"
  shows "parse_coap_uri (Some (endpoint_string h (Some ds) segs q)) = ParseOk uri \<and>
         port uri = decimal ds \<and>
         (0 \<le> socket_result pf \<and> 0 < inet_pton_result pf h \<longrightarrow>
            snd (send_coap_udp pf uri message message_len) =
              [SocketCreate (socket_result pf),
               SendTo (socket_result pf) (word_of_int (decimal ds)) (take message_len message),
               SocketClose (socket_result pf)]) \<and>
         uint (word_of_int (decimal ds) :: u16) = decimal ds mod 65536"
proof -
  have p: "case Some ds of None \<Rightarrow> True | Some ds \<Rightarrow> port_text ds" using assms(2) by simp
  have "parse_coap_uri (Some (endpoint_string h (Some ds) segs q)) = ParseOk uri"
    using parse_endpoint [OF assms(1) p assms(3,4,5,6)] by (simp add: assms(7))
  moreover have "uint (word_of_int (decimal ds) :: u16) = decimal ds mod 65536"
    by (simp add: uint_word_of_int)
  ultimately show ?thesis
    by (auto simp: assms(7) send_coap_udp_def Let_def)
qed

theorem explicit_port_unchecked_witness:
  "parse_coap_uri (Some ''coap://10.0.0.5:70000/a'') =
     ParseOk \<lparr>host = ''10.0.0.5'', port = 70000, path = ''a'', query = ''''\<rparr> \<and>
   snd (send_coap_udp pf_ok \<lparr>host = ''10.0.0.5'', port = 70000, path = ''a'', query = ''''\<rparr> msg9 9) =
     [SocketCreate 3, SendTo 3 4464 msg9, SocketClose 3]"
proof -
  have h: "host_text ''10.0.0.5''" by code_simp
  have p: "port_text ''70000''" by code_simp
  have s: "list_all segment_text [''a'']" by code_simp
  have n: "[''a''] \<noteq> []" by simp
  have l: "length (join_path [''a'']) \<le> 63" by simp
  have q: "case (None :: string option) of None \<Rightarrow> True | Some t \<Rightarrow> query_text t" by simp
  have d: "decimal ''70000'' = 70000" by code_simp
  have u: "\<lparr>host = ''10.0.0.5'', port = 70000, path = ''a'', query = ''''\<rparr> =
           \<lparr>host = ''10.0.0.5'', port = decimal ''70000'', path = join_path [''a''],
              query = (case (None :: string option) of None \<Rightarrow> [] | Some t \<Rightarrow> t)\<rparr>"
    by (simp add: d)
  have pf: "0 \<le> socket_result pf_ok \<and> 0 < inet_pton_result pf_ok ''10.0.0.5''"
    by (simp add: pf_ok_def)
  show ?thesis
    using explicit_port_unchecked [OF h p n s l q u, of pf_ok msg9 9] pf
    by (simp add: endpoint_string_def d pf_ok_def msg9_def)
qed

text \<open>
  The form needs a segment when the port is absent: after \<open>coap://h/\<close> alone the second
  format converts only the host, and the URI is rejected. With a port, the first format
  has already stored two conversions and an empty path is accepted.
\<close>

lemma parse_without_port_and_path:
  "parse_coap_uri (Some ''coap://10.0.0.5/'') = ParseFail \<and>
   parse_coap_uri (Some ''coap://10.0.0.5:5683/'') =
     ParseOk \<lparr>host = ''10.0.0.5'', port = 5683, path = '''', query = ''''\<rparr>"
  by code_simp

end
